theory Spec2Isabelle
  imports Main "HOL-Library.Word" "HOL-Library.AList"
begin

unbundle bit_operations_syntax

section \<open>Bounded fetch worker pool (fetch\_thread\_pool.cpp)\<close>

text \<open>
  \<^verbatim>\<open>class FetchThreadPool\<close>: the worker threads are represented by their number, the
  queue \<^verbatim>\<open>std::queue<std::function<void()>>\<close> by a list whose head is \<^verbatim>\<open>front()\<close>.
  The tasks are opaque closures, so their type is a parameter.
\<close>

record 'task FetchThreadPool =
  workers :: nat
  tasks :: "'task list"
  stop :: bool
  initialized :: bool
  maxThreads :: nat
  maxPendingTasks :: nat

text \<open>The constructor; its default arguments are \<^verbatim>\<open>maxThreads = 4, maxPending = 20\<close>.\<close>

definition FetchThreadPool_new :: "nat \<Rightarrow> nat \<Rightarrow> 'task FetchThreadPool" where
  "FetchThreadPool_new threads maxPending =
     \<lparr>workers = 0, tasks = [], stop = False, initialized = False,
      maxThreads = threads, maxPendingTasks = maxPending\<rparr>"

definition g_fetchThreadPool :: "'task FetchThreadPool" where
  "g_fetchThreadPool = FetchThreadPool_new 4 20"

text \<open>The first block of \<^verbatim>\<open>Enqueue\<close>: the one-time creation of the worker threads.\<close>

definition lazy_init :: "'task FetchThreadPool \<Rightarrow> 'task FetchThreadPool" where
  "lazy_init p =
     (if \<not> initialized p
      then p\<lparr>workers := workers p + maxThreads p, initialized := True\<rparr>
      else p)"

text \<open>\<^verbatim>\<open>bool Enqueue(task)\<close>: the returned flag and the pool afterwards.\<close>

definition Enqueue :: "'task \<Rightarrow> 'task FetchThreadPool \<Rightarrow> bool \<times> 'task FetchThreadPool" where
  "Enqueue task p =
     (let p1 = lazy_init p in
      if length (tasks p1) \<ge> maxPendingTasks p1
      then (False, p1)
      else (True, p1\<lparr>tasks := tasks p1 @ [task]\<rparr>))"

text \<open>
  The locked block of \<^verbatim>\<open>WorkerLoop\<close>: a worker that finds the queue non-empty moves
  \<^verbatim>\<open>tasks.front()\<close> out and pops it; it then runs that task outside the lock. On an
  empty queue the worker takes nothing (it waits, or leaves when \<^verbatim>\<open>stop\<close> is set).
\<close>

definition WorkerTake :: "'task FetchThreadPool \<Rightarrow> 'task option \<times> 'task FetchThreadPool" where
  "WorkerTake p =
     (case tasks p of
        [] \<Rightarrow> (None, p)
      | t # ts \<Rightarrow> (Some t, p\<lparr>tasks := ts\<rparr>))"

text \<open>
  A history of the pool: submissions and worker turns in any order. The observation
  records, next to the pool, the tasks the workers have run and the flag every
  \<^verbatim>\<open>Enqueue\<close> returned.
\<close>

datatype 'task pool_event = Submit 'task | WorkerTurn

record 'task pool_obs =
  pool :: "'task FetchThreadPool"
  executed :: "'task list"
  answers :: "('task \<times> bool) list"

fun pool_step :: "'task pool_obs \<Rightarrow> 'task pool_event \<Rightarrow> 'task pool_obs" where
  "pool_step ob (Submit t) =
     (let (ok, p') = Enqueue t (pool ob)
      in ob\<lparr>pool := p', answers := answers ob @ [(t, ok)]\<rparr>)"
| "pool_step ob WorkerTurn =
     (case WorkerTake (pool ob) of
        (None, p') \<Rightarrow> ob\<lparr>pool := p'\<rparr>
      | (Some t, p') \<Rightarrow> ob\<lparr>pool := p', executed := executed ob @ [t]\<rparr>)"

definition pool_run :: "'task pool_obs \<Rightarrow> 'task pool_event list \<Rightarrow> 'task pool_obs" where
  "pool_run ob evs = foldl pool_step ob evs"

definition pool_start :: "nat \<Rightarrow> nat \<Rightarrow> 'task pool_obs" where
  "pool_start threads maxPending =
     \<lparr>pool = FetchThreadPool_new threads maxPending, executed = [], answers = []\<rparr>"

definition accepted :: "'task pool_obs \<Rightarrow> 'task list" where
  "accepted ob = map fst (filter snd (answers ob))"

text \<open>The invariant of the histories of a pool.\<close>

definition pool_inv :: "'task pool_obs \<Rightarrow> bool" where
  "pool_inv ob \<longleftrightarrow>
     length (tasks (pool ob)) \<le> maxPendingTasks (pool ob) \<and>
     executed ob @ tasks (pool ob) = accepted ob"

section \<open>Ordering buffer (playback\_queue.cpp)\<close>

type_synonym u64 = "64 word"
type_synonym byte = "8 word"

text \<open>\<^verbatim>\<open>std::wstring\<close> on the target platform: a sequence of 16-bit code units.\<close>

type_synonym wstring = "16 word list"

text \<open>\<^verbatim>\<open>struct AudioItem\<close>; the field \<^verbatim>\<open>text\<close> is called \<open>item_text\<close> here.\<close>

record AudioItem =
  sequenceNumber :: u64
  item_text :: wstring
  audioData :: "byte list"
  cachePath :: string
  isReady :: bool
  failed :: bool

text \<open>The default constructor \<^verbatim>\<open>AudioItem()\<close>.\<close>

definition AudioItem_new :: AudioItem where
  "AudioItem_new =
     \<lparr>sequenceNumber = 0, item_text = [], audioData = [], cachePath = [],
      isReady = False, failed = False\<rparr>"

text \<open>
  \<^verbatim>\<open>class PlaybackQueue\<close>: \<^verbatim>\<open>std::map<uint64_t, AudioItem> pendingItems\<close> and the
  three atomics. Every member function below runs under \<^verbatim>\<open>queueMutex\<close>, so each is one
  atomic transition of the queue.
\<close>

record PlaybackQueue =
  pendingItems :: "u64 \<rightharpoonup> AudioItem"
  nextSequenceNumber :: u64
  nextToPlay :: u64
  shutdownRequested :: bool

definition PlaybackQueue_new :: PlaybackQueue where
  "PlaybackQueue_new =
     \<lparr>pendingItems = Map.empty, nextSequenceNumber = 1, nextToPlay = 1,
      shutdownRequested = False\<rparr>"

text \<open>\<^verbatim>\<open>uint64_t AddRequest(text)\<close>; \<^verbatim>\<open>fetch_add(1)\<close> wraps modulo \<open>2^64\<close>.\<close>

definition AddRequest :: "wstring \<Rightarrow> PlaybackQueue \<Rightarrow> u64 \<times> PlaybackQueue" where
  "AddRequest txt q =
     (let seq = nextSequenceNumber q;
          item = AudioItem_new\<lparr>sequenceNumber := seq, item_text := txt,
                                 isReady := False, failed := False\<rparr>
      in (seq, q\<lparr>nextSequenceNumber := seq + 1,
                 pendingItems := (pendingItems q)(seq \<mapsto> item)\<rparr>))"

text \<open>
  \<^verbatim>\<open>void MarkReady(seq, audio, cachePath)\<close>; the pointer \<^verbatim>\<open>cachePath\<close> may be null
  (\<open>None\<close>). An unknown \<open>seq\<close> only logs a warning.
\<close>

definition MarkReady :: "u64 \<Rightarrow> byte list \<Rightarrow> string option \<Rightarrow> PlaybackQueue \<Rightarrow> PlaybackQueue" where
  "MarkReady seq audio cp q =
     (case pendingItems q seq of
        Some it \<Rightarrow>
          q\<lparr>pendingItems := (pendingItems q)(seq \<mapsto>
               it\<lparr>audioData := audio,
                  cachePath := (case cp of Some c \<Rightarrow> c | None \<Rightarrow> cachePath it),
                  isReady := True\<rparr>)\<rparr>
      | None \<Rightarrow> q)"

definition MarkFailed :: "u64 \<Rightarrow> PlaybackQueue \<Rightarrow> PlaybackQueue" where
  "MarkFailed seq q =
     (case pendingItems q seq of
        Some it \<Rightarrow> q\<lparr>pendingItems := (pendingItems q)(seq \<mapsto> it\<lparr>failed := True, isReady := True\<rparr>)\<rparr>
      | None \<Rightarrow> q)"

text \<open>
  \<^verbatim>\<open>bool WaitForNextReady(AudioItem& outItem)\<close>. One pass through the body of its
  \<^verbatim>\<open>while (true)\<close> loop either returns false (\<open>ShutdownSignal\<close>), or moves the entry at
  \<^verbatim>\<open>nextToPlay\<close> out, erases it and returns true (\<open>Returned\<close>), or reaches
  \<^verbatim>\<open>cv.wait(lock)\<close> (\<open>Blocked\<close>): the caller then sleeps with the queue unchanged and
  makes another pass once another thread has changed the queue and notified.
\<close>

datatype wait_result = ShutdownSignal | Returned AudioItem | Blocked

definition WaitForNextReady :: "PlaybackQueue \<Rightarrow> wait_result \<times> PlaybackQueue" where
  "WaitForNextReady q =
     (if shutdownRequested q then (ShutdownSignal, q)
      else
        let expectedSeq = nextToPlay q in
        case pendingItems q expectedSeq of
          Some it \<Rightarrow>
            if isReady it
            then (Returned it, q\<lparr>pendingItems := (pendingItems q)(expectedSeq := None)\<rparr>)
            else (Blocked, q)
        | None \<Rightarrow> (Blocked, q))"

text \<open>
  \<^verbatim>\<open>void Remove(seq)\<close>: the pointer moves when \<open>seq\<close> is the current one, and the
  loop over the map erases every key below \<open>seq\<close>.
\<close>

definition Remove :: "u64 \<Rightarrow> PlaybackQueue \<Rightarrow> PlaybackQueue" where
  "Remove seq q =
     (let currentNext = nextToPlay q;
          q1 = (if seq = currentNext then q\<lparr>nextToPlay := seq + 1\<rparr> else q)
      in q1\<lparr>pendingItems := (\<lambda>k. if k < seq then None else pendingItems q1 k)\<rparr>)"

definition Shutdown :: "PlaybackQueue \<Rightarrow> PlaybackQueue" where
  "Shutdown q = q\<lparr>shutdownRequested := True\<rparr>"

subsection \<open>The playback coordinator and histories of the buffer\<close>

text \<open>
  \<^verbatim>\<open>PlaybackCoordinator\<close> (tts\_processor.cpp) is the only caller of \<^verbatim>\<open>WaitForNextReady\<close>
  and \<^verbatim>\<open>Remove\<close>. Between the two calls it holds the returned item (it plays it, or
  skips it when \<^verbatim>\<open>item.failed\<close>), and other threads may use the queue meanwhile. It
  leaves its loop when \<^verbatim>\<open>WaitForNextReady\<close> returns false.
\<close>

datatype coordinator = Idle | Holding AudioItem | Stopped

text \<open>
  The observation of a history: the queue, the coordinator, the pairs of sequence
  number and text in the order \<^verbatim>\<open>AddRequest\<close> handed them out, and the items in the
  order \<^verbatim>\<open>WaitForNextReady\<close> returned them.
\<close>

record queue_obs =
  queue :: PlaybackQueue
  coord :: coordinator
  submitted :: "(u64 \<times> wstring) list"
  returned :: "AudioItem list"

datatype queue_event =
    Add wstring
  | Ready u64 "byte list" "string option"
  | Failed u64
  | ShutdownCall
  | CoordinatorTurn

definition coordinator_turn :: "queue_obs \<Rightarrow> queue_obs" where
  "coordinator_turn ob =
     (case coord ob of
        Idle \<Rightarrow>
          (case WaitForNextReady (queue ob) of
             (ShutdownSignal, q') \<Rightarrow> ob\<lparr>queue := q', coord := Stopped\<rparr>
           | (Returned it, q') \<Rightarrow>
               ob\<lparr>queue := q', coord := Holding it, returned := returned ob @ [it]\<rparr>
           | (Blocked, q') \<Rightarrow> ob\<lparr>queue := q'\<rparr>)
      | Holding it \<Rightarrow> ob\<lparr>queue := Remove (sequenceNumber it) (queue ob), coord := Idle\<rparr>
      | Stopped \<Rightarrow> ob)"

fun queue_step :: "queue_obs \<Rightarrow> queue_event \<Rightarrow> queue_obs" where
  "queue_step ob (Add txt) =
     (let (seq, q') = AddRequest txt (queue ob)
      in ob\<lparr>queue := q', submitted := submitted ob @ [(seq, txt)]\<rparr>)"
| "queue_step ob (Ready seq audio cp) = ob\<lparr>queue := MarkReady seq audio cp (queue ob)\<rparr>"
| "queue_step ob (Failed seq) = ob\<lparr>queue := MarkFailed seq (queue ob)\<rparr>"
| "queue_step ob ShutdownCall = ob\<lparr>queue := Shutdown (queue ob)\<rparr>"
| "queue_step ob CoordinatorTurn = coordinator_turn ob"

definition queue_start :: queue_obs where
  "queue_start = \<lparr>queue = PlaybackQueue_new, coord = Idle, submitted = [], returned = []\<rparr>"

definition queue_run :: "queue_event list \<Rightarrow> queue_obs" where
  "queue_run evs = foldl queue_step queue_start evs"

fun adds :: "queue_event list \<Rightarrow> wstring list" where
  "adds [] = []"
| "adds (Add txt # evs) = txt # adds evs"
| "adds (_ # evs) = adds evs"

definition item_key :: "AudioItem \<Rightarrow> u64 \<times> wstring" where
  "item_key it = (sequenceNumber it, item_text it)"

subsection \<open>Invariant of the histories\<close>

text \<open>
  While the coordinator holds an item, \<^verbatim>\<open>nextToPlay\<close> still is that item's number; \<open>held\<close>
  is the resulting offset between \<^verbatim>\<open>nextToPlay\<close> and the number of items returned.
\<close>

definition held :: "coordinator \<Rightarrow> nat" where
  "held c = (case c of Holding _ \<Rightarrow> 1 | _ \<Rightarrow> 0)"

text \<open>
  What every history without wrap-around of the counter maintains: the sequence
  numbers handed out are \<open>1, \<dots>, n\<close>; the items returned are the first \<open>c\<close>
  submissions; and the pending map holds exactly the numbers \<open>c + 1, \<dots>, n\<close>, each
  with the number and text it was submitted with.
\<close>

definition queue_inv :: "queue_obs \<Rightarrow> bool" where
  "queue_inv ob \<longleftrightarrow>
     length (submitted ob) + 1 < 2 ^ 64 \<and>
     unat (nextSequenceNumber (queue ob)) = length (submitted ob) + 1 \<and>
     map fst (submitted ob) = map of_nat [1..<length (submitted ob) + 1] \<and>
     length (returned ob) \<le> length (submitted ob) \<and>
     map item_key (returned ob) = take (length (returned ob)) (submitted ob) \<and>
     unat (nextToPlay (queue ob)) + held (coord ob) = length (returned ob) + 1 \<and>
     (\<forall>it. coord ob = Holding it \<longrightarrow> returned ob \<noteq> [] \<and> it = last (returned ob)) \<and>
     (coord ob = Stopped \<longrightarrow> shutdownRequested (queue ob)) \<and>
     (\<forall>k. (pendingItems (queue ob) k \<noteq> None) =
            (length (returned ob) < unat k \<and> unat k \<le> length (submitted ob))) \<and>
     (\<forall>k it. pendingItems (queue ob) k = Some it \<longrightarrow>
            item_key it = submitted ob ! (unat k - 1))"

text \<open>Every pending request has been marked ready or failed.\<close>

definition all_ready :: "PlaybackQueue \<Rightarrow> bool" where
  "all_ready q \<longleftrightarrow> (\<forall>k it. pendingItems q k = Some it \<longrightarrow> isReady it)"

definition live :: "queue_obs \<Rightarrow> bool" where
  "live ob \<longleftrightarrow> queue_inv ob \<and> \<not> shutdownRequested (queue ob) \<and> all_ready (queue ob)"

text \<open>The coordinator turns needed to return everything submitted.\<close>

definition turns_left :: "queue_obs \<Rightarrow> nat" where
  "turns_left ob = 2 * (length (submitted ob) - length (returned ob)) + held (coord ob)"

text \<open>
  The same condition as \<open>all_ready\<close>, checked along the sequence numbers that were
  handed out.
\<close>

definition pending_all_marked :: "queue_obs \<Rightarrow> bool" where
  "pending_all_marked ob =
     list_all (\<lambda>(seq, _). case pendingItems (queue ob) seq of None \<Rightarrow> True | Some it \<Rightarrow> isReady it)
       (submitted ob)"

text \<open>
  Example histories: three requests resolved in the order 2, 3, 1; one request
  resolved; two requests pending.
\<close>

definition three_requests :: "queue_event list" where
  "three_requests = [Add [65], Add [66], Add [67], Ready 2 [7] None, Failed 3, Ready 1 [9] (Some ''f'')]"

definition one_ready :: "queue_event list" where
  "one_ready = [Add [65], Ready 1 [9] None]"

definition item_one :: AudioItem where
  "item_one = \<lparr>sequenceNumber = 1, item_text = [65], audioData = [9], cachePath = [],
                isReady = True, failed = False\<rparr>"

definition two_pending :: PlaybackQueue where
  "two_pending = snd (AddRequest [66] (snd (AddRequest [65] PlaybackQueue_new)))"

section \<open>Fingerprinted cache (audio\_cache.cpp)\<close>

text \<open>
  \<^verbatim>\<open>struct CacheEntry\<close>. The \<^verbatim>\<open>steady_clock::time_point\<close> is a signed tick count; only
  its order is used.
\<close>

record CacheEntry =
  data :: "byte list"
  timestamp :: int

text \<open>
  \<^verbatim>\<open>class AudioCache\<close>. The memory tier \<^verbatim>\<open>std::unordered_map<std::string, CacheEntry>\<close>
  is an association list with unique keys whose order is the map's iteration order.
  That order is unspecified in C++; the properties below are stated for an arbitrary
  list and speak of membership, lookup and size only. The member \<^verbatim>\<open>initialized\<close> is
  called \<open>cacheInitialized\<close> here.
\<close>

record AudioCache =
  cache :: "(string \<times> CacheEntry) list"
  maxSize :: nat
  cacheDirectory :: string
  diskCacheEnabled :: bool
  cacheInitialized :: bool
  gameDirectory :: string

text \<open>The constructor \<^verbatim>\<open>AudioCache(size_t size = 50)\<close> and \<^verbatim>\<open>SetMaxSize\<close>.\<close>

definition AudioCache_new :: "nat \<Rightarrow> AudioCache" where
  "AudioCache_new sz =
     \<lparr>cache = [], maxSize = sz, cacheDirectory = [], diskCacheEnabled = False,
      cacheInitialized = False, gameDirectory = []\<rparr>"

definition g_audioCache :: AudioCache where
  "g_audioCache = AudioCache_new 50"

definition SetMaxSize :: "nat \<Rightarrow> AudioCache \<Rightarrow> AudioCache" where
  "SetMaxSize sz c = c\<lparr>maxSize := sz\<rparr>"

text \<open>
  The files of the cache directory: a path with no readable file maps to \<open>None\<close>.
\<close>

type_synonym disk = "string \<rightharpoonup> byte list"

subsection \<open>The cache key\<close>

text \<open>
  \<^verbatim>\<open>GenerateCacheKey\<close> hashes \<^verbatim>\<open>text + "|" + server + "|" + voice\<close> with the operating
  system's SHA-256 provider and prints every digest byte as two lowercase hexadecimal
  digits. The provider is not part of the program: it is the parameter \<open>sha\<close>, which
  yields the digest, or \<open>None\<close> when one of the provider's calls or an allocation
  fails; the function then returns the empty string. A provider whose answer for one
  string changes between two calls is two values of the parameter.
\<close>

type_synonym sha256_provider = "string \<Rightarrow> byte list option"

definition hex_digit :: "nat \<Rightarrow> char" where
  "hex_digit n = ''0123456789abcdef'' ! n"

definition hex_byte :: "byte \<Rightarrow> string" where
  "hex_byte b = [hex_digit (unat b div 16), hex_digit (unat b mod 16)]"

definition combined :: "string \<Rightarrow> string \<Rightarrow> string \<Rightarrow> string" where
  "combined txt server voice = txt @ ''|'' @ server @ ''|'' @ voice"

definition GenerateCacheKey :: "sha256_provider \<Rightarrow> string \<Rightarrow> string \<Rightarrow> string \<Rightarrow> string" where
  "GenerateCacheKey sha txt server voice =
     (case sha (combined txt server voice) of
        None \<Rightarrow> []
      | Some hash \<Rightarrow> concat (map hex_byte hash))"

subsection \<open>The disk tier\<close>

text \<open>The path \<^verbatim>\<open>cacheDirectory + "\\" + cacheKey + "." + g_config.format\<close>.\<close>

definition cache_file :: "AudioCache \<Rightarrow> string \<Rightarrow> string \<Rightarrow> string" where
  "cache_file c fmt cacheKey = cacheDirectory c @ [CHR 0x5C] @ cacheKey @ ''.'' @ fmt"

definition LoadFromDisk :: "AudioCache \<Rightarrow> disk \<Rightarrow> string \<Rightarrow> string \<Rightarrow> byte list option" where
  "LoadFromDisk c files fmt cacheKey =
     (if \<not> diskCacheEnabled c then None else files (cache_file c fmt cacheKey))"

text \<open>
  What the operating system does with a write is an input: \<^verbatim>\<open>CreateFileA\<close> fails, or
  the file is created empty and \<^verbatim>\<open>WriteFile\<close> stores a proper prefix of the data, or
  all of it.
\<close>

datatype write_outcome = CreateFails | WriteShort nat | WriteAll

definition SaveToDisk ::
  "write_outcome \<Rightarrow> AudioCache \<Rightarrow> disk \<Rightarrow> string \<Rightarrow> string \<Rightarrow> byte list \<Rightarrow> bool \<times> disk" where
  "SaveToDisk io c files fmt cacheKey bytes =
     (if \<not> diskCacheEnabled c then (False, files)
      else case io of
        CreateFails \<Rightarrow> (False, files)
      | WriteShort n \<Rightarrow>
          (if n < length bytes
           then (False, files(cache_file c fmt cacheKey \<mapsto> take n bytes))
           else (True, files(cache_file c fmt cacheKey \<mapsto> bytes)))
      | WriteAll \<Rightarrow> (True, files(cache_file c fmt cacheKey \<mapsto> bytes)))"

subsection \<open>The memory tier\<close>

text \<open>
  The eviction loop: \<^verbatim>\<open>oldest\<close> starts at \<^verbatim>\<open>cache.begin()\<close> and moves to every entry
  whose timestamp is strictly smaller. \<^verbatim>\<open>cache.erase(oldest)\<close> on an empty map erases
  \<^verbatim>\<open>end()\<close>, which is undefined behaviour: the fault \<open>EraseEnd\<close>.
\<close>

datatype cache_fault = EraseEnd

fun oldest_from ::
  "string \<times> CacheEntry \<Rightarrow> (string \<times> CacheEntry) list \<Rightarrow> string \<times> CacheEntry" where
  "oldest_from oldest [] = oldest"
| "oldest_from oldest (e # es) =
     oldest_from (if timestamp (snd e) < timestamp (snd oldest) then e else oldest) es"

definition oldest_key :: "(string \<times> CacheEntry) list \<Rightarrow> string" where
  "oldest_key al = fst (oldest_from (hd al) al)"

definition evict_if_full :: "AudioCache \<Rightarrow> cache_fault + AudioCache" where
  "evict_if_full c =
     (if length (cache c) \<ge> maxSize c
      then (case cache c of
              [] \<Rightarrow> Inl EraseEnd
            | _ # _ \<Rightarrow> Inr (c\<lparr>cache := AList.delete (oldest_key (cache c)) (cache c)\<rparr>))
      else Inr c)"

text \<open>\<^verbatim>\<open>cache[cacheKey] = std::move(entry)\<close>.\<close>

definition store_entry :: "string \<Rightarrow> byte list \<Rightarrow> int \<Rightarrow> AudioCache \<Rightarrow> AudioCache" where
  "store_entry cacheKey bytes now c =
     c\<lparr>cache := AList.update cacheKey \<lparr>data = bytes, timestamp = now\<rparr> (cache c)\<rparr>"

text \<open>
  \<^verbatim>\<open>bool Get(text, server, voice, outData)\<close>: \<open>Some\<close> of the data on a hit, \<open>None\<close>
  on a miss. \<open>now\<close> is the value \<^verbatim>\<open>steady_clock::now()\<close> returns in the call. The two
  locked blocks run one after the other here; no other thread enters between them.
\<close>

definition Get ::
  "sha256_provider \<Rightarrow> string \<Rightarrow> int \<Rightarrow> string \<Rightarrow> string \<Rightarrow> string \<Rightarrow> AudioCache \<times> disk
     \<Rightarrow> cache_fault + (byte list option \<times> AudioCache)" where
  "Get sha fmt now txt server voice st =
     (let c = fst st; files = snd st;
          cacheKey = GenerateCacheKey sha txt server voice
      in case map_of (cache c) cacheKey of
           Some e \<Rightarrow>
             Inr (Some (data e),
                  c\<lparr>cache := AList.update cacheKey (e\<lparr>timestamp := now\<rparr>) (cache c)\<rparr>)
         | None \<Rightarrow>
             (case LoadFromDisk c files fmt cacheKey of
                Some outData \<Rightarrow>
                  (case evict_if_full c of
                     Inl fault \<Rightarrow> Inl fault
                   | Inr c1 \<Rightarrow> Inr (Some outData, store_entry cacheKey outData now c1))
              | None \<Rightarrow> Inr (None, c)))"

text \<open>\<^verbatim>\<open>void Put(text, server, voice, data)\<close>; the result of \<^verbatim>\<open>SaveToDisk\<close> is ignored.\<close>

definition Put ::
  "sha256_provider \<Rightarrow> string \<Rightarrow> int \<Rightarrow> write_outcome \<Rightarrow> string \<Rightarrow> string \<Rightarrow> string \<Rightarrow> byte list
     \<Rightarrow> AudioCache \<times> disk \<Rightarrow> cache_fault + (AudioCache \<times> disk)" where
  "Put sha fmt now io txt server voice bytes st =
     (let c = fst st; files = snd st;
          cacheKey = GenerateCacheKey sha txt server voice
      in case evict_if_full c of
           Inl fault \<Rightarrow> Inl fault
         | Inr c1 \<Rightarrow>
             (let c2 = store_entry cacheKey bytes now c1
              in Inr (c2, snd (SaveToDisk io c2 files fmt cacheKey bytes))))"

text \<open>\<^verbatim>\<open>GetCachedFilePath\<close>.\<close>

definition GetCachedFilePath ::
  "sha256_provider \<Rightarrow> string \<Rightarrow> string \<Rightarrow> string \<Rightarrow> string \<Rightarrow> AudioCache \<Rightarrow> string" where
  "GetCachedFilePath sha fmt txt server voice c =
     (if \<not> diskCacheEnabled c then []
      else cache_file c fmt (GenerateCacheKey sha txt server voice))"

subsection \<open>Histories of the cache\<close>

datatype cache_event =
    PutCall string string string "byte list" int write_outcome
  | GetCall string string string int

fun cache_step ::
  "sha256_provider \<Rightarrow> string \<Rightarrow> cache_fault + (AudioCache \<times> disk) \<Rightarrow> cache_event
     \<Rightarrow> cache_fault + (AudioCache \<times> disk)" where
  "cache_step sha fmt (Inl fault) ev = Inl fault"
| "cache_step sha fmt (Inr st) (PutCall txt server voice bytes now io) =
     Put sha fmt now io txt server voice bytes st"
| "cache_step sha fmt (Inr st) (GetCall txt server voice now) =
     (case Get sha fmt now txt server voice st of
        Inl fault \<Rightarrow> Inl fault
      | Inr (found, c') \<Rightarrow> Inr (c', snd st))"

definition cache_run ::
  "sha256_provider \<Rightarrow> string \<Rightarrow> AudioCache \<times> disk \<Rightarrow> cache_event list
     \<Rightarrow> cache_fault + (AudioCache \<times> disk)" where
  "cache_run sha fmt st evs = foldl (cache_step sha fmt) (Inr st) evs"

text \<open>
  A stand-in provider for the examples: the digest is the hashed string itself. Any
  provider that separates the strings of an example gives the same picture.
\<close>

definition plain_sha :: sha256_provider where
  "plain_sha s = Some (map (\<lambda>c. of_nat (of_char c)) s)"

subsection \<open>Invariant and example states of the cache\<close>

text \<open>
  The memory tier is within a positive capacity and its keys are unique, as in every
  \<^verbatim>\<open>std::unordered_map\<close>.
\<close>

definition cache_ok :: "AudioCache \<Rightarrow> bool" where
  "cache_ok c \<longleftrightarrow>
     distinct (map fst (cache c)) \<and> length (cache c) \<le> maxSize c \<and> 0 < maxSize c"

definition three_puts :: "cache_event list" where
  "three_puts = [PutCall ''a'' ''s'' ''v'' [1] 1 WriteAll, PutCall ''b'' ''s'' ''v'' [2] 2 WriteAll,
                 PutCall ''b'' ''s'' ''v'' [3] 3 WriteAll]"

definition two_entries :: AudioCache where
  "two_entries =
     \<lparr>cache = [(''617c737c76'', \<lparr>data = [1], timestamp = 1\<rparr>),
               (''627c737c76'', \<lparr>data = [2], timestamp = 2\<rparr>)],
      maxSize = 2, cacheDirectory = [], diskCacheEnabled = False,
      cacheInitialized = False, gameDirectory = []\<rparr>"

definition stored_hi :: "AudioCache \<times> disk" where
  "stored_hi =
     (\<lparr>cache = [(''68697c737c76'', \<lparr>data = [1, 2, 3], timestamp = 1\<rparr>)],
       maxSize = 2, cacheDirectory = [], diskCacheEnabled = False,
       cacheInitialized = False, gameDirectory = []\<rparr>, Map.empty)"

section \<open>Retrying fetch (tts\_fetcher.cpp)\<close>

text \<open>
  What the network does in one pass through the loop body is an input: one of the
  five calls before the status query fails (each ends the pass with \<^verbatim>\<open>continue\<close>), or
  the server answers with a status code; for status 200 the second component is the
  body the read loop collects.
\<close>

datatype attempt_outcome =
    InternetOpenFails
  | CrackUrlFails
  | ConnectFails
  | OpenRequestFails
  | SendRequestFails
  | Response nat "byte list"

text \<open>
  The result of the procedure, with what a caller can observe from outside: the
  returned bytes, the number of passes begun and the arguments of the \<^verbatim>\<open>Sleep\<close> calls
  in order.
\<close>

record fetch_result =
  audio :: "byte list"
  attempts_made :: nat
  sleeps :: "32 word list"

text \<open>
  \<^verbatim>\<open>DWORD delayMs = 500 * (1 << attempt)\<close>, as 32-bit arithmetic. (In C++ the product
  is a signed \<^verbatim>\<open>int\<close>; it stays below \<open>2^31\<close> for \<open>attempt \<le> 22\<close>.)
\<close>

definition delayMs :: "nat \<Rightarrow> 32 word" where
  "delayMs attempt = 500 * push_bit attempt 1"

text \<open>
  The loop \<^verbatim>\<open>for (int attempt = 0; attempt < maxRetries; ++attempt)\<close> from the pass
  \<open>attempt\<close> on; \<open>slept\<close> are the delays so far. \<^verbatim>\<open>break\<close> and falling out of the loop
  both reach \<^verbatim>\<open>return {}\<close>.
\<close>

function fetch_loop ::
  "(nat \<Rightarrow> attempt_outcome) \<Rightarrow> int \<Rightarrow> nat \<Rightarrow> 32 word list \<Rightarrow> fetch_result" where
  "fetch_loop net maxRetries attempt slept =
     (if int attempt < maxRetries then
        (let slept' = (if attempt > 0 then slept @ [delayMs attempt] else slept) in
         case net attempt of
           Response statusCode body \<Rightarrow>
             if statusCode \<noteq> 200 then
               (if statusCode \<ge> 400 \<and> statusCode < 500
                then \<lparr>audio = [], attempts_made = attempt + 1, sleeps = slept'\<rparr>
                else fetch_loop net maxRetries (attempt + 1) slept')
             else \<lparr>audio = body, attempts_made = attempt + 1, sleeps = slept'\<rparr>
         | _ \<Rightarrow> fetch_loop net maxRetries (attempt + 1) slept')
      else \<lparr>audio = [], attempts_made = attempt, sleeps = slept\<rparr>)"
  by pat_completeness auto
termination
  by (relation "measure (\<lambda>(net, maxRetries, attempt, slept). nat (maxRetries - int attempt))") auto

declare fetch_loop.simps [simp del]

text \<open>
  \<^verbatim>\<open>FetchTTSAudioWithRetry(text, maxRetries)\<close> and \<^verbatim>\<open>FetchTTSAudio(text)\<close>. The network's
  behaviour may depend on the request, so it is given per text.
\<close>

definition FetchTTSAudioWithRetry ::
  "(string \<Rightarrow> nat \<Rightarrow> attempt_outcome) \<Rightarrow> string \<Rightarrow> int \<Rightarrow> fetch_result" where
  "FetchTTSAudioWithRetry net txt maxRetries = fetch_loop (net txt) maxRetries 0 []"

definition FetchTTSAudio :: "(string \<Rightarrow> nat \<Rightarrow> attempt_outcome) \<Rightarrow> string \<Rightarrow> fetch_result" where
  "FetchTTSAudio net txt = FetchTTSAudioWithRetry net txt 3"

text \<open>The classes of outcomes the retry policy distinguishes.\<close>

fun client_error :: "attempt_outcome \<Rightarrow> bool" where
  "client_error (Response statusCode body) = (400 \<le> statusCode \<and> statusCode < 500)"
| "client_error _ = False"

fun succeeded :: "attempt_outcome \<Rightarrow> bool" where
  "succeeded (Response statusCode body) = (statusCode = 200)"
| "succeeded _ = False"


section \<open>Sanitization (utils.h)\<close>

text \<open>
  \<^verbatim>\<open>IsValidUTF8\<close>: \<open>c # cs\<close> is the string from index \<open>i\<close> on, so \<^verbatim>\<open>i + n >= str.length()\<close>
  says that \<open>cs\<close> has fewer than \<open>n\<close> bytes. The masks act on the byte's bits.
\<close>

definition continuation :: "char \<Rightarrow> bool" where
  "continuation c \<longleftrightarrow> (of_char c :: byte) AND 0xC0 = 0x80"

fun IsValidUTF8 :: "string \<Rightarrow> bool" where
  "IsValidUTF8 [] = True"
| "IsValidUTF8 (c # cs) =
     (if (of_char c :: nat) < 0x80 then IsValidUTF8 cs
      else if (of_char c :: byte) AND 0xE0 = 0xC0 then
        (if length cs < 1 \<or> \<not> continuation (cs ! 0) then False
         else IsValidUTF8 (drop 1 cs))
      else if (of_char c :: byte) AND 0xF0 = 0xE0 then
        (if length cs < 2 \<or> \<not> continuation (cs ! 0) \<or> \<not> continuation (cs ! 1) then False
         else IsValidUTF8 (drop 2 cs))
      else if (of_char c :: byte) AND 0xF8 = 0xF0 then
        (if length cs < 3 \<or> \<not> continuation (cs ! 0) \<or> \<not> continuation (cs ! 1)
            \<or> \<not> continuation (cs ! 2) then False
         else IsValidUTF8 (drop 3 cs))
      else False)"

text \<open>
  \<^verbatim>\<open>bool SanitizeText(std::string& text)\<close>: the returned flag, the text as the call
  leaves it, and the warnings it logs.
\<close>

datatype sanitize_warning = InvalidUTF8 | Truncated

definition MAX_LENGTH :: nat where
  "MAX_LENGTH = 5000"

definition SanitizeText :: "string \<Rightarrow> bool \<times> string \<times> sanitize_warning list" where
  "SanitizeText txt =
     (let text1 = filter (\<lambda>c. c \<noteq> CHR 0x00) txt;
          warn1 = (if \<not> IsValidUTF8 text1 then [InvalidUTF8] else []);
          text2 = (if length text1 > MAX_LENGTH then take MAX_LENGTH text1 else text1);
          warn2 = (if length text1 > MAX_LENGTH then [Truncated] else [])
      in (text2 \<noteq> [], text2, warn1 @ warn2))"

section \<open>The fetch task (tts\_processor.cpp)\<close>

text \<open>
  \<^verbatim>\<open>FetchAndEnqueueForPlayback(text, sequenceNumber)\<close> works on the global cache and
  queue. Its surroundings are collected in one record: the configuration strings
  \<^verbatim>\<open>g_config.server\<close>, \<^verbatim>\<open>voice\<close> and \<^verbatim>\<open>format\<close>, the hash provider, the clock values of
  the \<^verbatim>\<open>Get\<close> and the \<^verbatim>\<open>Put\<close>, the outcome of the disk write and the network.
\<close>

record task_env =
  cfg_server :: string
  cfg_voice :: string
  cfg_format :: string
  env_sha :: sha256_provider
  now_get :: int
  now_put :: int
  disk_write :: write_outcome
  network :: "string \<Rightarrow> nat \<Rightarrow> attempt_outcome"

record task_state =
  the_cache :: AudioCache
  the_files :: disk
  the_queue :: PlaybackQueue

text \<open>
  The result is the state afterwards and the number of connection attempts made, or
  the cache's fault.
\<close>

definition FetchAndEnqueueForPlayback ::
  "task_env \<Rightarrow> string \<Rightarrow> u64 \<Rightarrow> task_state \<Rightarrow> cache_fault + (task_state \<times> nat)" where
  "FetchAndEnqueueForPlayback env txt seq st =
     (case Get (env_sha env) (cfg_format env) (now_get env) txt (cfg_server env) (cfg_voice env)
             (the_cache st, the_files st) of
        Inl fault \<Rightarrow> Inl fault
      | Inr (Some cached, c1) \<Rightarrow>
          (let path = GetCachedFilePath (env_sha env) (cfg_format env) txt (cfg_server env)
                         (cfg_voice env) c1
           in Inr (st\<lparr>the_cache := c1,
                       the_queue := MarkReady seq cached (Some path) (the_queue st)\<rparr>,
                   0))
      | Inr (None, c1) \<Rightarrow>
          (case SanitizeText txt of
             (False, sanitizedText, warnings) \<Rightarrow>
               Inr (st\<lparr>the_cache := c1, the_queue := MarkFailed seq (the_queue st)\<rparr>, 0)
           | (True, sanitizedText, warnings) \<Rightarrow>
               (let r = FetchTTSAudio (network env) sanitizedText in
                if audio r \<noteq> [] then
                  (case Put (env_sha env) (cfg_format env) (now_put env) (disk_write env) txt
                          (cfg_server env) (cfg_voice env) (audio r) (c1, the_files st) of
                     Inl fault \<Rightarrow> Inl fault
                   | Inr (c2, files2) \<Rightarrow>
                       (let path = GetCachedFilePath (env_sha env) (cfg_format env) txt
                                     (cfg_server env) (cfg_voice env) c2
                        in Inr (st\<lparr>the_cache := c2, the_files := files2,
                                    the_queue := MarkReady seq (audio r) (Some path)
                                                   (the_queue st)\<rparr>,
                                attempts_made r)))
                else
                  Inr (st\<lparr>the_cache := c1, the_queue := MarkFailed seq (the_queue st)\<rparr>,
                       attempts_made r))))"

subsection \<open>Auxiliary notions and example environments\<close>

text \<open>
  An outcome after which the loop goes on to the next pass; an environment in which
  the network always answers 200; a state with one pending request.
\<close>

definition continues :: "attempt_outcome \<Rightarrow> bool" where
  "continues out \<longleftrightarrow> \<not> succeeded out \<and> \<not> client_error out"

definition quiet_env :: task_env where
  "quiet_env =
     \<lparr>cfg_server = ''http://localhost:5050/v1'', cfg_voice = ''onyx'', cfg_format = ''wav'',
      env_sha = plain_sha, now_get = 1, now_put = 2, disk_write = WriteAll,
      network = (\<lambda>t j. Response 200 [82, 73])\<rparr>"

definition one_request :: task_state where
  "one_request =
     \<lparr>the_cache = AudioCache_new 50, the_files = Map.empty,
      the_queue = snd (AddRequest [0, 0] PlaybackQueue_new)\<rparr>"

section \<open>Properties of the worker pool\<close>

lemma lazy_init_fields [simp]:
  "tasks (lazy_init p) = tasks p"
  "maxPendingTasks (lazy_init p) = maxPendingTasks p"
  "maxThreads (lazy_init p) = maxThreads p"
  "stop (lazy_init p) = stop p"
  "initialized (lazy_init p)"
  by (simp_all add: lazy_init_def)

lemma Enqueue_full:
  "maxPendingTasks p \<le> length (tasks p) \<Longrightarrow> Enqueue t p = (False, lazy_init p)"
  by (simp add: Enqueue_def Let_def)

lemma Enqueue_room:
  "length (tasks p) < maxPendingTasks p \<Longrightarrow>
     Enqueue t p = (True, (lazy_init p)\<lparr>tasks := tasks p @ [t]\<rparr>)"
  by (simp add: Enqueue_def Let_def)

lemma Enqueue_bound:
  "length (tasks p) \<le> maxPendingTasks p \<Longrightarrow>
     length (tasks (snd (Enqueue t p))) \<le> maxPendingTasks (snd (Enqueue t p))"
  by (simp add: Enqueue_def Let_def)

lemma Enqueue_max [simp]: "maxPendingTasks (snd (Enqueue t p)) = maxPendingTasks p"
  by (simp add: Enqueue_def Let_def)

lemma WorkerTake_max [simp]: "maxPendingTasks (snd (WorkerTake p)) = maxPendingTasks p"
  by (simp add: WorkerTake_def split: list.splits)

lemma WorkerTake_bound:
  "length (tasks p) \<le> maxPendingTasks p \<Longrightarrow>
     length (tasks (snd (WorkerTake p))) \<le> maxPendingTasks p"
  by (cases "tasks p") (simp_all add: WorkerTake_def)

lemma WorkerTake_frees:
  "tasks p \<noteq> [] \<Longrightarrow> length (tasks p) \<le> maxPendingTasks p \<Longrightarrow>
     length (tasks (snd (WorkerTake p))) < maxPendingTasks p"
  by (cases "tasks p") (simp_all add: WorkerTake_def)

lemma pool_step_max [simp]:
  "maxPendingTasks (pool (pool_step ob e)) = maxPendingTasks (pool ob)"
proof (cases e)
  case (Submit t)
  have "maxPendingTasks (snd (Enqueue t (pool ob))) = maxPendingTasks (pool ob)" by simp
  then show ?thesis using Submit by (simp add: split_beta Let_def)
next
  case WorkerTurn
  have "maxPendingTasks (snd (WorkerTake (pool ob))) = maxPendingTasks (pool ob)" by simp
  then show ?thesis using WorkerTurn
    by (cases "WorkerTake (pool ob)") (auto split: option.splits)
qed

lemma pool_step_inv: "pool_inv ob \<Longrightarrow> pool_inv (pool_step ob e)"
proof (cases e)
  case (Submit t)
  assume inv: "pool_inv ob"
  show ?thesis
  proof (cases "maxPendingTasks (pool ob) \<le> length (tasks (pool ob))")
    case True
    then show ?thesis using inv Submit
      by (simp add: Enqueue_full pool_inv_def accepted_def)
  next
    case False
    then show ?thesis using inv Submit
      by (simp add: Enqueue_room pool_inv_def accepted_def)
  qed
next
  case WorkerTurn
  assume inv: "pool_inv ob"
  show ?thesis
  proof (cases "tasks (pool ob)")
    case Nil
    then show ?thesis using inv WorkerTurn
      by (simp add: WorkerTake_def pool_inv_def accepted_def)
  next
    case (Cons t ts)
    then show ?thesis using inv WorkerTurn
      by (simp add: WorkerTake_def pool_inv_def accepted_def)
  qed
qed

lemma pool_run_inv: "pool_inv ob \<Longrightarrow> pool_inv (pool_run ob evs)"
  unfolding pool_run_def
  by (induction evs arbitrary: ob) (simp_all add: pool_step_inv)

lemma pool_run_max: "maxPendingTasks (pool (pool_run ob evs)) = maxPendingTasks (pool ob)"
  unfolding pool_run_def
  by (induction evs arbitrary: ob) simp_all

lemma pool_start_inv: "pool_inv (pool_start n m)"
  by (simp add: pool_inv_def pool_start_def FetchThreadPool_new_def accepted_def)

text \<open>
  Claim C3. \<^verbatim>\<open>Enqueue\<close> answers false and leaves the queue as it was when the queue
  already holds \<^verbatim>\<open>maxPendingTasks\<close> items (20 for the global pool), and otherwise
  appends the task at the back and answers true. Hence, in every history of a pool
  created with bound \<open>m\<close>, the queue never holds more than \<open>m\<close> tasks and the tasks run
  or still queued are exactly the accepted ones in submission order (a rejected task
  is in neither). After a worker has taken a task from a queue within its bound, the
  next \<^verbatim>\<open>Enqueue\<close> is accepted.
\<close>

theorem Enqueue_backpressure:
  fixes p :: "'task FetchThreadPool" and evs :: "'task pool_event list"
  shows "(maxPendingTasks p \<le> length (tasks p) \<longrightarrow>
            fst (Enqueue t p) = False \<and> tasks (snd (Enqueue t p)) = tasks p)
       \<and> (length (tasks p) < maxPendingTasks p \<longrightarrow>
            fst (Enqueue t p) = True \<and> tasks (snd (Enqueue t p)) = tasks p @ [t])
       \<and> maxPendingTasks (g_fetchThreadPool :: 'task FetchThreadPool) = 20
       \<and> length (tasks (pool (pool_run (pool_start n m) evs))) \<le> m
       \<and> executed (pool_run (pool_start n m) evs) @ tasks (pool (pool_run (pool_start n m) evs))
           = accepted (pool_run (pool_start n m) evs)
       \<and> (tasks p \<noteq> [] \<and> length (tasks p) \<le> maxPendingTasks p \<longrightarrow>
            fst (Enqueue t' (snd (WorkerTake p))) = True)"
proof -
  have inv: "pool_inv (pool_run (pool_start n m) evs)"
    by (rule pool_run_inv [OF pool_start_inv])
  have mx: "maxPendingTasks (pool (pool_run (pool_start n m) evs)) = m"
    by (simp add: pool_run_max pool_start_def FetchThreadPool_new_def)
  have a: "maxPendingTasks p \<le> length (tasks p) \<longrightarrow>
            fst (Enqueue t p) = False \<and> tasks (snd (Enqueue t p)) = tasks p"
    by (simp add: Enqueue_full)
  have b: "length (tasks p) < maxPendingTasks p \<longrightarrow>
            fst (Enqueue t p) = True \<and> tasks (snd (Enqueue t p)) = tasks p @ [t]"
    by (simp add: Enqueue_room)
  have c: "maxPendingTasks (g_fetchThreadPool :: 'task FetchThreadPool) = 20"
    by (simp add: g_fetchThreadPool_def FetchThreadPool_new_def)
  have d: "length (tasks (pool (pool_run (pool_start n m) evs))) \<le> m"
    using inv mx by (simp add: pool_inv_def)
  have e: "executed (pool_run (pool_start n m) evs) @ tasks (pool (pool_run (pool_start n m) evs))
           = accepted (pool_run (pool_start n m) evs)"
    using inv by (simp add: pool_inv_def)
  have f: "tasks p \<noteq> [] \<and> length (tasks p) \<le> maxPendingTasks p \<longrightarrow>
            fst (Enqueue t' (snd (WorkerTake p))) = True"
  proof
    assume h: "tasks p \<noteq> [] \<and> length (tasks p) \<le> maxPendingTasks p"
    then have "length (tasks (snd (WorkerTake p))) < maxPendingTasks (snd (WorkerTake p))"
      by (simp add: WorkerTake_frees)
    then show "fst (Enqueue t' (snd (WorkerTake p))) = True"
      by (simp add: Enqueue_room)
  qed
  from a b c d e f show ?thesis by blast
qed

text \<open>
  The pool bound 2 under three submissions, a worker turn and a fourth submission:
  the third task is refused and never runs, the fourth is accepted.
\<close>

theorem Enqueue_backpressure_witness:
  "pool_run (pool_start 4 2) [Submit (1::nat), Submit 2, Submit 3, WorkerTurn, Submit 4]
     = \<lparr>pool = \<lparr>workers = 4, tasks = [2, 4], stop = False, initialized = True,
                maxThreads = 4, maxPendingTasks = 2\<rparr>,
        executed = [1],
        answers = [(1, True), (2, True), (3, False), (4, True)]\<rparr>
   \<and> fst (Enqueue (3::nat) (FetchThreadPool_new 4 2\<lparr>tasks := [1, 2]\<rparr>)) = False
   \<and> fst (Enqueue (4::nat) (snd (WorkerTake (FetchThreadPool_new 4 2\<lparr>tasks := [1, 2]\<rparr>)))) = True"
  using Enqueue_backpressure [of "FetchThreadPool_new 4 2\<lparr>tasks := [1, 2::nat]\<rparr>" 3 4 2
      "[Submit (1::nat), Submit 2, Submit 3, WorkerTurn, Submit 4]" 4]
  by (simp add: pool_run_def pool_start_def FetchThreadPool_new_def Enqueue_def lazy_init_def
      WorkerTake_def Let_def)


section \<open>Properties of the ordering buffer\<close>


lemma unat_succ: "unat (w :: u64) + 1 < 2 ^ 64 \<Longrightarrow> unat (w + 1) = unat w + 1"
  using unat_add_lem [of w 1] by simp

lemma inv_start: "queue_inv queue_start"
  by (auto simp add: queue_inv_def queue_start_def PlaybackQueue_new_def held_def)

lemma inv_Ready: "queue_inv ob \<Longrightarrow> queue_inv (queue_step ob (Ready s a c))"
  unfolding queue_inv_def
  by (cases "pendingItems (queue ob) s") (auto simp: MarkReady_def item_key_def)

lemma inv_Failed: "queue_inv ob \<Longrightarrow> queue_inv (queue_step ob (Failed s))"
  unfolding queue_inv_def
  by (cases "pendingItems (queue ob) s") (auto simp: MarkFailed_def item_key_def)

lemma inv_Shutdown: "queue_inv ob \<Longrightarrow> queue_inv (queue_step ob ShutdownCall)"
  unfolding queue_inv_def
  by (simp add: Shutdown_def)

lemma inv_Add:
  assumes inv: "queue_inv ob" and room: "length (submitted ob) + 2 < 2 ^ 64"
  shows "queue_inv (queue_step ob (Add txt))"
proof -
  let ?q = "queue ob" and ?n = "length (submitted ob)"
  have ns: "unat (nextSequenceNumber ?q) = ?n + 1" using inv by (simp add: queue_inv_def)
  then have seq: "nextSequenceNumber ?q = of_nat (?n + 1)"
    by (metis of_nat_unat semiring_1_class.of_nat_simps(2) ucast_id)
  have ns': "unat (nextSequenceNumber ?q + 1) = ?n + 2"
    using unat_succ [of "nextSequenceNumber ?q"] ns room by simp
  have other: "\<forall>k. k \<noteq> nextSequenceNumber ?q \<longrightarrow> unat k \<noteq> ?n + 1"
    using ns by (metis word_unat_eq_iff)
  show ?thesis
    using inv room ns ns' other
    unfolding queue_inv_def
    apply (simp add: AddRequest_def Let_def AudioItem_new_def item_key_def)
    apply (intro conjI allI impI)
         apply (simp add: seq)
        apply (auto simp: nth_append le_Suc_eq)
    done
qed

lemma Wait_cases:
  "WaitForNextReady q = (r, q') \<Longrightarrow>
     (r = ShutdownSignal \<and> q' = q \<and> shutdownRequested q) \<or>
     (r = Blocked \<and> q' = q) \<or>
     (\<exists>it. r = Returned it \<and> pendingItems q (nextToPlay q) = Some it \<and> isReady it \<and>
        \<not> shutdownRequested q \<and>
        q' = q\<lparr>pendingItems := (pendingItems q)(nextToPlay q := None)\<rparr>)"
  by (auto simp: WaitForNextReady_def Let_def split: if_splits option.splits)

lemma inv_Wait_Returned:
  assumes inv: "queue_inv ob" and idle: "coord ob = Idle"
    and w: "pendingItems (queue ob) (nextToPlay (queue ob)) = Some it"
  shows "queue_inv (ob\<lparr>queue := (queue ob)\<lparr>pendingItems := (pendingItems (queue ob))(nextToPlay (queue ob) := None)\<rparr>,
                      coord := Holding it, returned := returned ob @ [it]\<rparr>)"
proof -
  let ?q = "queue ob" and ?n = "length (submitted ob)" and ?c = "length (returned ob)"
  have ntp: "unat (nextToPlay ?q) = ?c + 1" using inv idle by (simp add: queue_inv_def held_def)
  have dom: "\<forall>k. (pendingItems ?q k \<noteq> None) = (?c < unat k \<and> unat k \<le> ?n)"
    using inv by (simp add: queue_inv_def)
  have key: "item_key it = submitted ob ! ?c"
    using inv w ntp by (auto simp: queue_inv_def)
  have lt: "?c < ?n" using dom w ntp by (metis Suc_eq_plus1 Suc_le_lessD option.distinct(1))
  have other: "\<forall>k. k \<noteq> nextToPlay ?q \<longrightarrow> unat k \<noteq> ?c + 1"
    using ntp by (metis word_unat_eq_iff)
  have tk: "take (Suc ?c) (submitted ob) = take ?c (submitted ob) @ [submitted ob ! ?c]"
    using lt by (simp add: take_Suc_conv_app_nth)
  show ?thesis
    using inv ntp key lt other tk
    unfolding queue_inv_def
    apply (simp add: held_def)
    apply (intro conjI allI impI)
     apply (auto simp: Suc_lessI)
    done
qed

lemma last_take_nth: "0 < n \<Longrightarrow> n \<le> length xs \<Longrightarrow> last (take n xs) = xs ! (n - 1)"
proof -
  assume n: "0 < n" "n \<le> length xs"
  then have "take n xs \<noteq> []" by auto
  then have "last (take n xs) = take n xs ! (length (take n xs) - 1)" by (rule last_conv_nth)
  also have "\<dots> = xs ! (n - 1)" using n by (simp add: min_absorb2)
  finally show ?thesis .
qed

lemma held_seq:
  assumes inv: "queue_inv ob" and h: "coord ob = Holding it"
  shows "sequenceNumber it = nextToPlay (queue ob)"
proof -
  let ?q = "queue ob" and ?n = "length (submitted ob)" and ?c = "length (returned ob)"
  have ne: "returned ob \<noteq> []" and la: "it = last (returned ob)"
    using inv h by (simp_all add: queue_inv_def)
  have c: "0 < ?c" "?c \<le> ?n" using ne inv by (simp_all add: queue_inv_def)
  have idx: "?c - 1 < ?n" using c by arith
  have ntp: "unat (nextToPlay ?q) = ?c" using inv h by (simp add: queue_inv_def held_def)
  have "item_key it = last (map item_key (returned ob))"
    using ne la by (simp add: last_map)
  also have "\<dots> = last (take ?c (submitted ob))"
    using inv by (simp add: queue_inv_def)
  also have "\<dots> = submitted ob ! (?c - 1)"
    using c by (rule last_take_nth)
  finally have "sequenceNumber it = fst (submitted ob ! (?c - 1))"
    by (simp add: item_key_def prod_eq_iff)
  also have "\<dots> = map fst (submitted ob) ! (?c - 1)"
    using idx by (simp only: nth_map)
  also have "\<dots> = map of_nat [1..<?n + 1] ! (?c - 1)"
    using inv by (simp add: queue_inv_def)
  also have "\<dots> = of_nat (1 + (?c - 1))"
    using idx by (simp only: nth_map nth_upt length_upt add_diff_cancel_right')
  also have "\<dots> = of_nat ?c"
    using c by simp
  also have "\<dots> = nextToPlay ?q"
    using ntp by (metis of_nat_unat ucast_id)
  finally show ?thesis .
qed

lemma inv_no_stale:
  assumes inv: "queue_inv ob" and k: "k < nextToPlay (queue ob)"
  shows "pendingItems (queue ob) k = None"
proof -
  have "unat k < unat (nextToPlay (queue ob))" using k by (simp add: word_less_nat_alt)
  moreover have "unat (nextToPlay (queue ob)) \<le> length (returned ob) + 1"
    using inv by (simp add: queue_inv_def)
  ultimately have "\<not> length (returned ob) < unat k" by simp
  then show ?thesis using inv unfolding queue_inv_def by blast
qed

lemma Remove_held:
  assumes inv: "queue_inv ob" and h: "coord ob = Holding it"
  shows "Remove (sequenceNumber it) (queue ob) = (queue ob)\<lparr>nextToPlay := nextToPlay (queue ob) + 1\<rparr>"
proof -
  have s: "sequenceNumber it = nextToPlay (queue ob)" by (rule held_seq [OF inv h])
  have "(\<lambda>k. if k < nextToPlay (queue ob) then None
             else pendingItems ((queue ob)\<lparr>nextToPlay := nextToPlay (queue ob) + 1\<rparr>) k)
          = pendingItems (queue ob)"
    by (rule ext) (simp add: inv_no_stale [OF inv])
  then show ?thesis by (simp add: Remove_def Let_def s)
qed

lemma inv_Remove:
  assumes inv: "queue_inv ob" and h: "coord ob = Holding it"
  shows "queue_inv (ob\<lparr>queue := Remove (sequenceNumber it) (queue ob), coord := Idle\<rparr>)"
proof -
  let ?q = "queue ob" and ?n = "length (submitted ob)" and ?c = "length (returned ob)"
  have ntp: "unat (nextToPlay ?q) = ?c" using inv h by (simp add: queue_inv_def held_def)
  have "?c \<le> ?n" "?n + 1 < 2 ^ 64" using inv by (simp_all add: queue_inv_def)
  then have "unat (nextToPlay ?q + 1) = ?c + 1"
    using unat_succ [of "nextToPlay ?q"] ntp by simp
  then show ?thesis
    using inv unfolding queue_inv_def
    by (simp add: Remove_held [OF inv h] held_def)
qed

lemma inv_coordinator_turn: "queue_inv ob \<Longrightarrow> queue_inv (coordinator_turn ob)"
proof (cases "coord ob")
  case Idle
  assume inv: "queue_inv ob"
  obtain r q' where w: "WaitForNextReady (queue ob) = (r, q')" by fastforce
  from Wait_cases [OF w] show ?thesis
  proof (elim disjE conjE exE)
    assume "r = ShutdownSignal" "q' = queue ob" "shutdownRequested (queue ob)"
    then show ?thesis using inv Idle w by (simp add: queue_inv_def held_def coordinator_turn_def)
  next
    assume "r = Blocked" "q' = queue ob"
    then show ?thesis using inv Idle w by (simp add: queue_inv_def held_def coordinator_turn_def)
  next
    fix it
    assume "r = Returned it" "pendingItems (queue ob) (nextToPlay (queue ob)) = Some it"
      "q' = (queue ob)\<lparr>pendingItems := (pendingItems (queue ob))(nextToPlay (queue ob) := None)\<rparr>"
    then show ?thesis using inv_Wait_Returned [OF inv Idle, of it] Idle w
      by (simp add: coordinator_turn_def)
  qed
next
  case (Holding it)
  assume inv: "queue_inv ob"
  show ?thesis using inv_Remove [OF inv Holding] Holding by (simp add: coordinator_turn_def)
next
  case Stopped
  then show "queue_inv ob \<Longrightarrow> queue_inv (coordinator_turn ob)" by (simp add: coordinator_turn_def)
qed

lemma inv_queue_step:
  assumes inv: "queue_inv ob" and room: "length (submitted (queue_step ob e)) + 1 < 2 ^ 64"
  shows "queue_inv (queue_step ob e)"
proof (cases e)
  case (Add tx)
  have "length (submitted ob) + 2 < 2 ^ 64"
    using room Add by (simp add: AddRequest_def Let_def)
  then show ?thesis using inv_Add [OF inv] Add by simp
next
  case (Ready s a c)
  then show ?thesis using inv_Ready [OF inv] by simp
next
  case (Failed s)
  then show ?thesis using inv_Failed [OF inv] by simp
next
  case ShutdownCall
  then show ?thesis using inv_Shutdown [OF inv] by simp
next
  case CoordinatorTurn
  then show ?thesis using inv_coordinator_turn [OF inv] by simp
qed

lemma adds_append: "adds (xs @ ys) = adds xs @ adds ys"
  by (induction xs rule: adds.induct) simp_all

lemma queue_run_snoc: "queue_run (evs @ [e]) = queue_step (queue_run evs) e"
  by (simp add: queue_run_def)

lemma submitted_coordinator_turn [simp]: "submitted (coordinator_turn ob) = submitted ob"
  by (simp add: coordinator_turn_def split: coordinator.splits prod.splits wait_result.splits)

lemma submitted_queue_step:
  "map snd (submitted (queue_step ob e)) = map snd (submitted ob) @ adds [e]"
  by (cases e) (simp_all add: AddRequest_def Let_def)

lemma submitted_queue_run: "map snd (submitted (queue_run evs)) = adds evs"
proof (induction evs rule: rev_induct)
  case Nil
  then show ?case by (simp add: queue_run_def queue_start_def)
next
  case (snoc e evs)
  then show ?case by (simp add: queue_run_snoc submitted_queue_step adds_append)
qed

lemma length_submitted_queue_run: "length (submitted (queue_run evs)) = length (adds evs)"
  by (metis length_map submitted_queue_run)

lemma queue_run_inv: "length (adds evs) + 1 < 2 ^ 64 \<Longrightarrow> queue_inv (queue_run evs)"
proof (induction evs rule: rev_induct)
  case Nil
  then show ?case by (simp add: queue_run_def inv_start)
next
  case (snoc e evs)
  have "length (adds evs) \<le> length (adds (evs @ [e]))" by (simp add: adds_append)
  then have "queue_inv (queue_run evs)" using snoc by simp
  moreover have "length (submitted (queue_step (queue_run evs) e)) + 1 < 2 ^ 64"
    using snoc.prems by (simp add: length_submitted_queue_run flip: queue_run_snoc)
  ultimately show ?case by (simp add: queue_run_snoc inv_queue_step)
qed

lemma submitted_eq_zip:
  assumes "queue_inv ob"
  shows "submitted ob = zip (map of_nat [1..<length (submitted ob) + 1]) (map snd (submitted ob))"
proof -
  have "submitted ob = zip (map fst (submitted ob)) (map snd (submitted ob))"
    by (simp add: zip_map_fst_snd)
  then show ?thesis using assms unfolding queue_inv_def by metis
qed

lemma live_turn:
  assumes l: "live ob"
  shows "live (coordinator_turn ob) \<and> turns_left (coordinator_turn ob) = turns_left ob - 1"
proof -
  let ?q = "queue ob" and ?n = "length (submitted ob)" and ?c = "length (returned ob)"
  have inv: "queue_inv ob" and ns: "\<not> shutdownRequested ?q" and ar: "all_ready ?q"
    using l by (simp_all add: live_def)
  have inv': "queue_inv (coordinator_turn ob)" by (rule inv_coordinator_turn [OF inv])
  have cn: "?c \<le> ?n" using inv by (simp add: queue_inv_def)
  show ?thesis
  proof (cases "coord ob")
    case Idle
    have ntp: "unat (nextToPlay ?q) = ?c + 1" using inv Idle by (simp add: queue_inv_def held_def)
    show ?thesis
    proof (cases "pendingItems ?q (nextToPlay ?q)")
      case None
      have "\<not> (?c < unat (nextToPlay ?q) \<and> unat (nextToPlay ?q) \<le> ?n)"
        using inv None unfolding queue_inv_def by blast
      then have "?c = ?n" using ntp cn by simp
      moreover have "coordinator_turn ob = ob"
        using None Idle ns by (simp add: coordinator_turn_def WaitForNextReady_def)
      ultimately show ?thesis using l Idle by (simp add: turns_left_def held_def)
    next
      case (Some it)
      have "?c < unat (nextToPlay ?q) \<and> unat (nextToPlay ?q) \<le> ?n"
        using inv Some unfolding queue_inv_def by blast
      then have lt: "?c < ?n" using ntp by simp
      have rdy: "isReady it" using ar Some by (auto simp: all_ready_def)
      have ct: "coordinator_turn ob =
         ob\<lparr>queue := ?q\<lparr>pendingItems := (pendingItems ?q)(nextToPlay ?q := None)\<rparr>,
            coord := Holding it, returned := returned ob @ [it]\<rparr>"
        using Some Idle ns rdy by (simp add: coordinator_turn_def WaitForNextReady_def)
      have "all_ready (queue (coordinator_turn ob))"
        using ar by (auto simp: ct all_ready_def split: if_splits)
      moreover have "\<not> shutdownRequested (queue (coordinator_turn ob))"
        using ns by (simp add: ct)
      moreover have "turns_left (coordinator_turn ob) = turns_left ob - 1"
        using lt Idle by (simp add: ct turns_left_def held_def)
      ultimately show ?thesis using inv' by (simp add: live_def)
    qed
  next
    case (Holding it)
    have ct: "coordinator_turn ob = ob\<lparr>queue := ?q\<lparr>nextToPlay := nextToPlay ?q + 1\<rparr>, coord := Idle\<rparr>"
      using Holding by (simp add: coordinator_turn_def Remove_held [OF inv Holding])
    have "all_ready (queue (coordinator_turn ob))"
      using ar by (simp add: ct all_ready_def)
    moreover have "\<not> shutdownRequested (queue (coordinator_turn ob))"
      using ns by (simp add: ct)
    moreover have "turns_left (coordinator_turn ob) = turns_left ob - 1"
      using Holding by (simp add: ct turns_left_def held_def)
    ultimately show ?thesis using inv' by (simp add: live_def)
  next
    case Stopped
    then show ?thesis using inv ns by (simp add: queue_inv_def)
  qed
qed

lemma drain:
  "live ob \<Longrightarrow> turns_left ob \<le> k \<Longrightarrow>
     live (foldl queue_step ob (replicate k CoordinatorTurn)) \<and>
     turns_left (foldl queue_step ob (replicate k CoordinatorTurn)) = 0 \<and>
     submitted (foldl queue_step ob (replicate k CoordinatorTurn)) = submitted ob"
proof (induction k arbitrary: ob)
  case 0
  then show ?case by simp
next
  case (Suc k)
  have "live (coordinator_turn ob)" "turns_left (coordinator_turn ob) \<le> k"
    using live_turn [OF Suc.prems(1)] Suc.prems(2) by simp_all
  from Suc.IH [OF this] show ?case by simp
qed

lemma turns_left_bound:
  assumes "queue_inv ob"
  shows "turns_left ob \<le> 2 * length (submitted ob)"
proof (cases "coord ob")
  case (Holding it)
  then have "returned ob \<noteq> []" "length (returned ob) \<le> length (submitted ob)"
    using assms by (simp_all add: queue_inv_def)
  then have c: "0 < length (returned ob)" "length (returned ob) \<le> length (submitted ob)" by simp_all
  have "Suc (2 * (n - c)) \<le> 2 * n" if "0 < c" "c \<le> n" for n c :: nat
    using that by arith
  from this [OF c] show ?thesis using Holding by (simp add: turns_left_def held_def)
qed (simp_all add: turns_left_def held_def)

lemma pending_key_submitted:
  assumes inv: "queue_inv ob" and p: "pendingItems (queue ob) k = Some it"
  shows "k \<in> fst ` set (submitted ob)"
proof -
  let ?n = "length (submitted ob)"
  have "pendingItems (queue ob) k \<noteq> None" using p by simp
  then have r: "0 < unat k" "unat k \<le> ?n"
    using inv unfolding queue_inv_def by auto
  then have idx: "unat k - 1 < ?n" by arith
  have "map fst (submitted ob) ! (unat k - 1) = map of_nat [1..<?n + 1] ! (unat k - 1)"
    using inv by (simp add: queue_inv_def)
  also have "\<dots> = of_nat (1 + (unat k - 1))"
    using idx by (simp only: nth_map nth_upt length_upt add_diff_cancel_right')
  also have "\<dots> = k" using r by simp
  finally have "fst (submitted ob ! (unat k - 1)) = k" using idx by simp
  then show ?thesis using idx by (metis image_eqI nth_mem)
qed

lemma marked_all_ready:
  assumes inv: "queue_inv ob" and m: "pending_all_marked ob"
  shows "all_ready (queue ob)"
  unfolding all_ready_def
proof (intro allI impI)
  fix k it
  assume p: "pendingItems (queue ob) k = Some it"
  from pending_key_submitted [OF inv p] obtain t where "(k, t) \<in> set (submitted ob)" by auto
  then show "isReady it" using m p by (auto simp: pending_all_marked_def list_all_iff)
qed

lemma unat_of_nat_u64: "x < 2 ^ 64 \<Longrightarrow> unat (of_nat x :: u64) = x"
  by (rule of_nat_inverse [OF refl]) simp

lemma seqs_distinct:
  assumes "c < 2 ^ 64"
  shows "distinct (map (of_nat :: nat \<Rightarrow> u64) [1..<c + 1])"
proof -
  have "inj_on (of_nat :: nat \<Rightarrow> u64) (set [1..<c + 1])"
  proof (rule inj_onI)
    fix x y
    assume x: "x \<in> set [1..<c + 1]" and y: "y \<in> set [1..<c + 1]"
      and e: "(of_nat x :: u64) = of_nat y"
    have "x < 2 ^ 64" and "y < 2 ^ 64" using x y assms by auto
    then have "unat (of_nat x :: u64) = x" and "unat (of_nat y :: u64) = y"
      by (simp_all only: unat_of_nat_u64)
    then show "x = y" using e by metis
  qed
  then show ?thesis by (simp add: distinct_map del: upt_Suc)
qed

text \<open>
  Claim C1. In every history of the buffer (calls of \<^verbatim>\<open>AddRequest\<close>, \<^verbatim>\<open>MarkReady\<close>,
  \<^verbatim>\<open>MarkFailed\<close>, \<^verbatim>\<open>Shutdown\<close> and the coordinator's \<^verbatim>\<open>WaitForNextReady\<close> and \<^verbatim>\<open>Remove\<close>
  in any interleaving, with fewer than \<open>2^64 - 1\<close> submissions so that the counter
  does not wrap), the items \<^verbatim>\<open>WaitForNextReady\<close> has returned are a prefix of the
  submissions in submission order: their sequence numbers are \<open>1, 2, \<dots>\<close> without a gap
  or a repetition, each with the text submitted under it, whatever the order of the
  marks. If moreover no shutdown was requested and every request still pending has
  been marked ready or failed, then twice as many coordinator turns as there were
  submissions return all of them: the returned sequence equals the submission order.
\<close>

theorem playback_order:
  assumes bound: "length (adds evs) < 2 ^ 64 - 1"
  shows "map item_key (returned (queue_run evs)) =
           take (length (returned (queue_run evs)))
             (zip (map of_nat [1..<length (adds evs) + 1]) (adds evs))
       \<and> map sequenceNumber (returned (queue_run evs)) =
           map of_nat [1..<length (returned (queue_run evs)) + 1]
       \<and> distinct (map sequenceNumber (returned (queue_run evs)))
       \<and> (\<not> shutdownRequested (queue (queue_run evs)) \<and> pending_all_marked (queue_run evs) \<and>
            2 * length (adds evs) \<le> k \<longrightarrow>
            map item_key (returned (queue_run (evs @ replicate k CoordinatorTurn))) =
              zip (map of_nat [1..<length (adds evs) + 1]) (adds evs))"
proof -
  let ?ob = "queue_run evs"
  let ?n = "length (adds evs)" and ?c = "length (returned ?ob)"
  let ?subs = "zip (map of_nat [1..<?n + 1]) (adds evs) :: (u64 \<times> wstring) list"
  have b: "?n + 1 < 2 ^ 64" using bound by simp
  have inv: "queue_inv ?ob" by (rule queue_run_inv [OF b])
  have n: "length (submitted ?ob) = ?n" by (rule length_submitted_queue_run)
  have subs: "submitted ?ob = ?subs"
    using submitted_eq_zip [OF inv] by (simp only: n submitted_queue_run)
  have cn: "?c \<le> ?n" using inv n by (simp add: queue_inv_def)
  have keys: "map item_key (returned ?ob) = take ?c ?subs"
    using inv subs by (simp add: queue_inv_def)
  have "map sequenceNumber (returned ?ob) = map fst (map item_key (returned ?ob))"
    by (simp add: item_key_def comp_def)
  also have "\<dots> = take ?c (map of_nat [1..<?n + 1])"
    by (simp only: keys take_map [symmetric] map_fst_zip length_map length_upt add_diff_cancel_right')
  also have "\<dots> = map of_nat [1..<?c + 1]"
    using cn by (simp add: take_map take_upt del: upt_Suc)
  finally have seqs: "map sequenceNumber (returned ?ob) = map of_nat [1..<?c + 1]" .
  have "?c < 2 ^ 64" using cn b by simp
  then have dist: "distinct (map sequenceNumber (returned ?ob))"
    by (simp only: seqs seqs_distinct)
  have liveness: "map item_key (returned (queue_run (evs @ replicate k CoordinatorTurn))) = ?subs"
    if ns: "\<not> shutdownRequested (queue ?ob)" and m: "pending_all_marked ?ob" and k: "2 * ?n \<le> k"
  proof -
    let ?ob' = "foldl queue_step ?ob (replicate k CoordinatorTurn)"
    have l: "live ?ob" using inv ns marked_all_ready [OF inv m] by (simp add: live_def)
    have "turns_left ?ob \<le> k" using turns_left_bound [OF inv] k n by simp
    from drain [OF l this]
    have inv': "queue_inv ?ob'" and z: "turns_left ?ob' = 0" and s: "submitted ?ob' = submitted ?ob"
      by (simp_all add: live_def)
    have "length (returned ?ob') \<le> length (submitted ?ob')" using inv' by (simp add: queue_inv_def)
    moreover have "length (submitted ?ob') - length (returned ?ob') = 0"
      using z by (simp add: turns_left_def)
    ultimately have "length (returned ?ob') = length (submitted ?ob')" by simp
    then have "map item_key (returned ?ob') = submitted ?ob'"
      using inv' by (simp add: queue_inv_def)
    moreover have "queue_run (evs @ replicate k CoordinatorTurn) = ?ob'"
      by (simp add: queue_run_def)
    ultimately show ?thesis by (simp add: s subs)
  qed
  from keys seqs dist liveness show ?thesis by blast
qed

lemmas queue_eval = queue_run_def queue_start_def PlaybackQueue_new_def
      AddRequest_def MarkReady_def MarkFailed_def AudioItem_new_def Let_def
      coordinator_turn_def WaitForNextReady_def Remove_def

lemma replicate6: "replicate 6 x = [x, x, x, x, x, x]"
  by (simp add: numeral_eq_Suc)

theorem playback_order_witness:
  "map item_key (returned (queue_run (three_requests @ replicate 6 CoordinatorTurn))) =
     [(1, [65]), (2, [66]), (3, [67])]
   \<and> returned (queue_run (three_requests @ [CoordinatorTurn, CoordinatorTurn, CoordinatorTurn])) =
     [\<lparr>sequenceNumber = 1, item_text = [65], audioData = [9], cachePath = ''f'',
        isReady = True, failed = False\<rparr>,
      \<lparr>sequenceNumber = 2, item_text = [66], audioData = [7], cachePath = [],
        isReady = True, failed = False\<rparr>]"
  using playback_order [of three_requests 6]
  by (simp add: three_requests_def queue_eval pending_all_marked_def replicate6)

text \<open>
  Claim C7, amended. For every queue and every \<open>seq\<close>, \<^verbatim>\<open>Remove(seq)\<close> sets
  \<^verbatim>\<open>nextToPlay\<close> to \<open>seq + 1\<close> (modulo \<open>2^64\<close>) exactly when \<open>seq\<close> equals the current
  \<^verbatim>\<open>nextToPlay\<close> and leaves it unchanged otherwise, and it erases from the pending map
  every entry whose key is less than the argument \<open>seq\<close> (not: less than the new
  \<^verbatim>\<open>nextToPlay\<close>), leaving every other entry, the entry at \<open>seq\<close> included, and the
  other members unchanged.
\<close>

theorem Remove_effect:
  "nextToPlay (Remove seq q) = (if seq = nextToPlay q then seq + 1 else nextToPlay q)
   \<and> pendingItems (Remove seq q) k = (if k < seq then None else pendingItems q k)
   \<and> nextSequenceNumber (Remove seq q) = nextSequenceNumber q
   \<and> shutdownRequested (Remove seq q) = shutdownRequested q"
  by (simp add: Remove_def Let_def)

theorem Remove_effect_witness:
  "nextToPlay (Remove 1 two_pending) = 2
   \<and> pendingItems (Remove 1 two_pending) 1 = pendingItems two_pending 1
   \<and> pendingItems (Remove 2 two_pending) 1 = None
   \<and> nextToPlay (Remove 2 two_pending) = 1"
  using Remove_effect [of 1 two_pending 1] Remove_effect [of 2 two_pending 1]
  by (simp add: two_pending_def AddRequest_def PlaybackQueue_new_def Let_def)

text \<open>
  Claim C7 as stated fails. After two submissions (keys 1 and 2 pending, \<^verbatim>\<open>nextToPlay\<close>
  1), \<^verbatim>\<open>Remove(1)\<close> moves \<^verbatim>\<open>nextToPlay\<close> to 2 and keeps the entry 1, which is below
  the new \<^verbatim>\<open>nextToPlay\<close>; and \<^verbatim>\<open>Remove(3)\<close> leaves \<^verbatim>\<open>nextToPlay\<close> at 1 and erases the
  entry 2, which is not below it.
\<close>

theorem Remove_prune_counterexample:
  "nextToPlay (Remove 1 two_pending) = 2
   \<and> pendingItems (Remove 1 two_pending) 1 =
       Some \<lparr>sequenceNumber = 1, item_text = [65], audioData = [], cachePath = [],
             isReady = False, failed = False\<rparr>
   \<and> nextToPlay two_pending = 1
   \<and> nextToPlay (Remove 3 two_pending) = 1
   \<and> pendingItems two_pending 2 =
       Some \<lparr>sequenceNumber = 2, item_text = [66], audioData = [], cachePath = [],
             isReady = False, failed = False\<rparr>
   \<and> pendingItems (Remove 3 two_pending) 2 = None"
  by (simp add: two_pending_def Remove_def AddRequest_def PlaybackQueue_new_def
      AudioItem_new_def Let_def)

lemma Wait_Returned_idle:
  assumes inv: "queue_inv ob" and w: "WaitForNextReady (queue ob) = (Returned it, q')"
  shows "coord ob = Idle \<and> coordinator_turn ob = ob\<lparr>queue := q', coord := Holding it, returned := returned ob @ [it]\<rparr>"
proof -
  from Wait_cases [OF w]
  have p: "pendingItems (queue ob) (nextToPlay (queue ob)) = Some it"
    and ns: "\<not> shutdownRequested (queue ob)" by auto
  have "pendingItems (queue ob) (nextToPlay (queue ob)) \<noteq> None" using p by simp
  then have "length (returned ob) < unat (nextToPlay (queue ob))"
    using inv unfolding queue_inv_def by blast
  moreover have "unat (nextToPlay (queue ob)) + held (coord ob) = length (returned ob) + 1"
    and "coord ob = Stopped \<longrightarrow> shutdownRequested (queue ob)"
    using inv by (simp_all add: queue_inv_def)
  ultimately have "coord ob = Idle" using ns by (cases "coord ob") (simp_all add: held_def)
  then show ?thesis using w by (simp add: coordinator_turn_def)
qed

lemma held_entry_gone:
  assumes inv: "queue_inv ob" and h: "coord ob = Holding it"
  shows "pendingItems (queue ob) (sequenceNumber it) = None"
proof -
  have "unat (nextToPlay (queue ob)) = length (returned ob)"
    using inv h by (simp add: queue_inv_def held_def)
  then have "\<not> length (returned ob) < unat (sequenceNumber it)"
    by (simp add: held_seq [OF inv h])
  then show ?thesis using inv unfolding queue_inv_def by blast
qed

lemma held_facts:
  assumes inv: "queue_inv ob" and h: "coord ob = Holding it"
  shows "pendingItems (queue ob) (sequenceNumber it) = None
       \<and> MarkReady (sequenceNumber it) aud cp (queue ob) = queue ob
       \<and> MarkFailed (sequenceNumber it) (queue ob) = queue ob
       \<and> Remove (sequenceNumber it) (queue ob) = (queue ob)\<lparr>nextToPlay := sequenceNumber it + 1\<rparr>"
  using held_entry_gone [OF inv h] Remove_held [OF inv h] held_seq [OF inv h]
  by (simp add: MarkReady_def MarkFailed_def)

text \<open>
  Claim C10. In every history without wrap-around of the counter: when
  \<^verbatim>\<open>WaitForNextReady\<close> returns an item, the queue it leaves has no entry for the item's
  sequence number, so \<^verbatim>\<open>MarkReady\<close> and \<^verbatim>\<open>MarkFailed\<close> for that number leave the queue
  as it is and \<^verbatim>\<open>Remove\<close> for that number changes nothing but \<^verbatim>\<open>nextToPlay\<close>, which
  becomes the number plus one. The same holds in every later state in which the
  coordinator still holds the item, whatever other threads did in between.
\<close>

theorem returned_entry_erased:
  assumes bound: "length (adds evs) < 2 ^ 64 - 1"
  shows "(WaitForNextReady (queue (queue_run evs)) = (Returned it, q') \<longrightarrow>
            pendingItems q' (sequenceNumber it) = None
          \<and> MarkReady (sequenceNumber it) aud cp q' = q'
          \<and> MarkFailed (sequenceNumber it) q' = q'
          \<and> Remove (sequenceNumber it) q' = q'\<lparr>nextToPlay := sequenceNumber it + 1\<rparr>)
       \<and> (coord (queue_run evs) = Holding it \<longrightarrow>
            pendingItems (queue (queue_run evs)) (sequenceNumber it) = None
          \<and> MarkReady (sequenceNumber it) aud cp (queue (queue_run evs)) = queue (queue_run evs)
          \<and> MarkFailed (sequenceNumber it) (queue (queue_run evs)) = queue (queue_run evs)
          \<and> Remove (sequenceNumber it) (queue (queue_run evs)) =
              (queue (queue_run evs))\<lparr>nextToPlay := sequenceNumber it + 1\<rparr>)"
proof (intro conjI impI)
  have inv: "queue_inv (queue_run evs)"
    by (rule queue_run_inv) (use bound in simp)
  {
    assume h: "coord (queue_run evs) = Holding it"
    note f = held_facts [OF inv h, of aud cp]
    from f show "pendingItems (queue (queue_run evs)) (sequenceNumber it) = None" by simp
    from f show "MarkReady (sequenceNumber it) aud cp (queue (queue_run evs)) = queue (queue_run evs)" by simp
    from f show "MarkFailed (sequenceNumber it) (queue (queue_run evs)) = queue (queue_run evs)" by simp
    from f show "Remove (sequenceNumber it) (queue (queue_run evs)) =
              (queue (queue_run evs))\<lparr>nextToPlay := sequenceNumber it + 1\<rparr>" by simp
  }
  {
    assume w: "WaitForNextReady (queue (queue_run evs)) = (Returned it, q')"
    let ?ob' = "coordinator_turn (queue_run evs)"
    have ct: "?ob' = (queue_run evs)\<lparr>queue := q', coord := Holding it,
                returned := returned (queue_run evs) @ [it]\<rparr>"
      using Wait_Returned_idle [OF inv w] by simp
    have inv': "queue_inv ?ob'" by (rule inv_coordinator_turn [OF inv])
    have h': "coord ?ob' = Holding it" and q': "queue ?ob' = q'" by (simp_all add: ct)
    note f = held_facts [OF inv' h', of aud cp, unfolded q']
    from f show "pendingItems q' (sequenceNumber it) = None" by simp
    from f show "MarkReady (sequenceNumber it) aud cp q' = q'" by simp
    from f show "MarkFailed (sequenceNumber it) q' = q'" by simp
    from f show "Remove (sequenceNumber it) q' = q'\<lparr>nextToPlay := sequenceNumber it + 1\<rparr>" by simp
  }
qed

text \<open>
  One request, marked ready and returned; while the coordinator holds it a second
  request arrives and the first is marked again.
\<close>

theorem returned_entry_erased_witness:
  "fst (WaitForNextReady (queue (queue_run one_ready))) = Returned item_one
   \<and> pendingItems (snd (WaitForNextReady (queue (queue_run one_ready)))) 1 = None
   \<and> MarkFailed 1 (snd (WaitForNextReady (queue (queue_run one_ready))))
        = snd (WaitForNextReady (queue (queue_run one_ready)))
   \<and> coord (queue_run (one_ready @ [CoordinatorTurn, Add [66], Ready 1 [5] None])) = Holding item_one
   \<and> nextToPlay (Remove 1 (queue (queue_run (one_ready @ [CoordinatorTurn, Add [66], Ready 1 [5] None])))) = 2
   \<and> pendingItems (Remove 1 (queue (queue_run (one_ready @ [CoordinatorTurn, Add [66], Ready 1 [5] None]))))
        = pendingItems (queue (queue_run (one_ready @ [CoordinatorTurn, Add [66], Ready 1 [5] None])))"
  using returned_entry_erased [of one_ready item_one
          "snd (WaitForNextReady (queue (queue_run one_ready)))" "[5]" None]
        returned_entry_erased [of "one_ready @ [CoordinatorTurn, Add [66], Ready 1 [5] None]"
          item_one "snd (WaitForNextReady (queue (queue_run one_ready)))" "[5]" None]
  by (simp add: one_ready_def item_one_def queue_eval)

section \<open>Properties of the cache\<close>

lemma hex_digit_inj:
  assumes "i < 16" and "j < 16" and "hex_digit i = hex_digit j"
  shows "i = j"
proof -
  have d: "distinct ''0123456789abcdef''" by simp
  have "length ''0123456789abcdef'' = 16" by simp
  then show ?thesis
    using assms nth_eq_iff_index_eq [OF d, of i j] by (simp add: hex_digit_def)
qed

lemma hex_byte_inj:
  assumes "hex_byte a = hex_byte b"
  shows "a = b"
proof -
  have "unat a < 2 ^ LENGTH(8)" "unat b < 2 ^ LENGTH(8)"
    by (rule unsigned_less)+
  then have "unat a < 256" "unat b < 256" by simp_all
  then have "unat a div 16 < 16" "unat b div 16 < 16"
    by (simp_all add: less_mult_imp_div_less)
  moreover have "hex_digit (unat a div 16) = hex_digit (unat b div 16)"
    using assms by (simp add: hex_byte_def)
  ultimately have d: "unat a div 16 = unat b div 16" by (rule hex_digit_inj)
  have "unat a mod 16 < 16" "unat b mod 16 < 16" by simp_all
  moreover have "hex_digit (unat a mod 16) = hex_digit (unat b mod 16)"
    using assms by (simp add: hex_byte_def)
  ultimately have m: "unat a mod 16 = unat b mod 16" by (rule hex_digit_inj)
  have "unat a = unat b" using d m by (metis div_mult_mod_eq)
  then show ?thesis by (simp add: word_unat_eq_iff)
qed

lemma hex_encode_inj:
  "concat (map hex_byte xs) = concat (map hex_byte ys) \<Longrightarrow> xs = ys"
proof (induction xs arbitrary: ys)
  case Nil
  then show ?case by (cases ys) (simp_all add: hex_byte_def)
next
  case (Cons x xs)
  then obtain y ys' where ys: "ys = y # ys'" by (cases ys) (auto simp: hex_byte_def)
  have "length (hex_byte x) = length (hex_byte y)" by (simp add: hex_byte_def)
  moreover have "hex_byte x @ concat (map hex_byte xs) = hex_byte y @ concat (map hex_byte ys')"
    using Cons.prems by (simp add: ys)
  ultimately have "hex_byte x = hex_byte y \<and> concat (map hex_byte xs) = concat (map hex_byte ys')"
    by (metis append_eq_append_conv)
  then show ?case using Cons.IH hex_byte_inj by (simp add: ys)
qed

lemma split_at_first:
  "x \<notin> set a \<Longrightarrow> x \<notin> set a' \<Longrightarrow> a @ x # r = a' @ x # r' \<Longrightarrow> a = a' \<and> r = r'"
proof (induction a arbitrary: a')
  case Nil
  then show ?case by (cases a') auto
next
  case (Cons y ys)
  then show ?case by (cases a') auto
qed

lemma combined_inj:
  assumes "CHR ''|'' \<notin> set t \<union> set s \<union> set t' \<union> set s'"
  shows "(combined t s v = combined t' s' v') = ((t, s, v) = (t', s', v'))"
proof
  assume "combined t s v = combined t' s' v'"
  then have e: "t @ CHR ''|'' # (s @ CHR ''|'' # v) = t' @ CHR ''|'' # (s' @ CHR ''|'' # v')"
    by (simp add: combined_def)
  have "t = t' \<and> s @ CHR ''|'' # v = s' @ CHR ''|'' # v'"
    using assms by (intro split_at_first [OF _ _ e]) simp_all
  moreover from this have "s = s' \<and> v = v'"
    using assms by (intro split_at_first [of "CHR ''|''" s s' v v']) simp_all
  ultimately show "(t, s, v) = (t', s', v')" by simp
next
  assume "(t, s, v) = (t', s', v')"
  then show "combined t s v = combined t' s' v'" by simp
qed

text \<open>
  Claim C8, amended. The key is a function of the triple alone: identical triples give
  identical keys. It is computed from the string \<^verbatim>\<open>text + "|" + server + "|" + voice\<close>
  only; two triples in which neither text nor server contains the separator \<open>|\<close> have
  the same such string exactly when they are the same triple, and two strings the
  provider digests successfully give the same key exactly when their digests are
  equal (the hexadecimal encoding loses nothing). Distinct triples are therefore kept
  apart as far as the separator is unambiguous and the provider's digests differ.
\<close>

theorem GenerateCacheKey_fingerprint:
  "((txt, server, voice) = (txt', server', voice') \<longrightarrow>
      GenerateCacheKey sha txt server voice = GenerateCacheKey sha txt' server' voice')
   \<and> (CHR ''|'' \<notin> set txt \<union> set server \<union> set txt' \<union> set server' \<longrightarrow>
        (combined txt server voice = combined txt' server' voice')
          = ((txt, server, voice) = (txt', server', voice')))
   \<and> (sha (combined txt server voice) = Some h \<and> sha (combined txt' server' voice') = Some h' \<longrightarrow>
        (GenerateCacheKey sha txt server voice = GenerateCacheKey sha txt' server' voice') = (h = h'))"
proof (intro conjI impI)
  assume "(txt, server, voice) = (txt', server', voice')"
  then show "GenerateCacheKey sha txt server voice = GenerateCacheKey sha txt' server' voice'"
    by simp
next
  assume "CHR ''|'' \<notin> set txt \<union> set server \<union> set txt' \<union> set server'"
  then show "(combined txt server voice = combined txt' server' voice')
          = ((txt, server, voice) = (txt', server', voice'))"
    by (rule combined_inj)
next
  assume "sha (combined txt server voice) = Some h \<and> sha (combined txt' server' voice') = Some h'"
  then show "(GenerateCacheKey sha txt server voice = GenerateCacheKey sha txt' server' voice') = (h = h')"
    using hex_encode_inj [of h h'] by (auto simp: GenerateCacheKey_def)
qed

text \<open>Two voices for the same text and endpoint, under the stand-in provider.\<close>

theorem GenerateCacheKey_fingerprint_witness:
  "GenerateCacheKey plain_sha ''hi'' ''s'' ''onyx'' = ''68697c737c6f6e7978''
   \<and> GenerateCacheKey plain_sha ''hi'' ''s'' ''nova'' = ''68697c737c6e6f7661''
   \<and> combined ''hi'' ''s'' ''onyx'' \<noteq> combined ''hi'' ''s'' ''nova''
   \<and> GenerateCacheKey plain_sha ''hi'' ''s'' ''onyx'' \<noteq> GenerateCacheKey plain_sha ''hi'' ''s'' ''nova''"
  using GenerateCacheKey_fingerprint [of "''hi''" "''s''" "''onyx''" "''hi''" "''s''" "''nova''" plain_sha
      "map (\<lambda>c. of_nat (of_char c)) ''hi|s|onyx''" "map (\<lambda>c. of_nat (of_char c)) ''hi|s|nova''"]
  by (simp add: GenerateCacheKey_def plain_sha_def combined_def hex_byte_def hex_digit_def)

text \<open>
  Claim C8 as stated fails: the triples \<open>("a|b", "c", "d")\<close> and \<open>("a", "b|c", "d")\<close> differ
  in text and endpoint and have the same key under every provider, because the
  hashed strings coincide.
\<close>

theorem GenerateCacheKey_collision_counterexample:
  "(''a|b'', ''c'', ''d'') \<noteq> (''a'', ''b|c'', ''d'')
   \<and> (\<forall>sha. GenerateCacheKey sha ''a|b'' ''c'' ''d'' = GenerateCacheKey sha ''a'' ''b|c'' ''d'')"
  by (simp add: GenerateCacheKey_def combined_def)

lemma oldest_from_mem: "oldest_from p es \<in> set (p # es)"
  by (induction es arbitrary: p) auto

lemma oldest_from_le_start: "timestamp (snd (oldest_from p es)) \<le> timestamp (snd p)"
proof (induction es arbitrary: p)
  case Nil
  then show ?case by simp
next
  case (Cons e es)
  let ?p' = "if timestamp (snd e) < timestamp (snd p) then e else p"
  have "timestamp (snd (oldest_from ?p' es)) \<le> timestamp (snd ?p')" by (rule Cons.IH)
  moreover have "timestamp (snd ?p') \<le> timestamp (snd p)" by simp
  ultimately show ?case by simp
qed

lemma oldest_from_le_all:
  "e \<in> set es \<Longrightarrow> timestamp (snd (oldest_from p es)) \<le> timestamp (snd e)"
proof (induction es arbitrary: p)
  case Nil
  then show ?case by simp
next
  case (Cons x xs)
  let ?p' = "if timestamp (snd x) < timestamp (snd p) then x else p"
  show ?case
  proof (cases "e = x")
    case True
    have "timestamp (snd (oldest_from ?p' xs)) \<le> timestamp (snd ?p')"
      by (rule oldest_from_le_start)
    moreover have "timestamp (snd ?p') \<le> timestamp (snd x)" by simp
    ultimately show ?thesis using True by simp
  next
    case False
    then have "e \<in> set xs" using Cons.prems by simp
    from Cons.IH [OF this] show ?thesis by simp
  qed
qed

lemma oldest_key_mem: "al \<noteq> [] \<Longrightarrow> oldest_key al \<in> fst ` set al"
proof -
  assume "al \<noteq> []"
  then obtain e es where al: "al = e # es" by (cases al) auto
  have "oldest_from e (e # es) \<in> set (e # e # es)" by (rule oldest_from_mem)
  then show ?thesis by (auto simp: oldest_key_def al simp del: oldest_from.simps)
qed

lemma oldest_key_entry:
  assumes "al \<noteq> []" and "distinct (map fst al)"
  shows "map_of al (oldest_key al) = Some (snd (oldest_from (hd al) al))"
proof -
  obtain e es where al: "al = e # es" using assms(1) by (cases al) auto
  have "oldest_from e (e # es) \<in> set (e # e # es)" by (rule oldest_from_mem)
  then have "oldest_from (hd al) al \<in> set al" by (simp add: al del: oldest_from.simps)
  then have "(oldest_key al, snd (oldest_from (hd al) al)) \<in> set al"
    by (simp add: oldest_key_def)
  then show ?thesis using assms(2) by simp
qed

lemma oldest_key_min:
  assumes "(k, e) \<in> set al"
  shows "timestamp (snd (oldest_from (hd al) al)) \<le> timestamp e"
  using oldest_from_le_all [OF assms, of "hd al"] by simp

lemma length_delete_mem:
  "distinct (map fst al) \<Longrightarrow> k \<in> fst ` set al \<Longrightarrow> Suc (length (AList.delete k al)) = length al"
proof (induction al)
  case Nil
  then show ?case by simp
next
  case (Cons x xs)
  show ?case
  proof (cases "fst x = k")
    case True
    then have "k \<notin> fst ` set xs" using Cons.prems(1) by auto
    then show ?thesis using True by simp
  next
    case False
    then show ?thesis using Cons by auto
  qed
qed

lemma length_update_le: "length (AList.update k v al) \<le> Suc (length al)"
  by (induction al) auto

lemma length_update_mem: "k \<in> fst ` set al \<Longrightarrow> length (AList.update k v al) = length al"
  by (induction al) auto

lemma evict_if_full_room:
  assumes "length (cache c) < maxSize c"
  shows "evict_if_full c = Inr c"
  using assms by (simp add: evict_if_full_def)

lemma evict_if_full_full:
  assumes "maxSize c \<le> length (cache c)" and "cache c \<noteq> []"
  shows "evict_if_full c = Inr (c\<lparr>cache := AList.delete (oldest_key (cache c)) (cache c)\<rparr>)"
  using assms by (cases "cache c") (simp_all add: evict_if_full_def)

lemma evict_if_full_empty:
  assumes "maxSize c = 0" and "cache c = []"
  shows "evict_if_full c = Inl EraseEnd"
  using assms by (simp add: evict_if_full_def)

lemma evict_if_full_ok:
  assumes ok: "cache_ok c"
  shows "\<exists>c1. evict_if_full c = Inr c1 \<and> distinct (map fst (cache c1)) \<and>
           length (cache c1) < maxSize c1 \<and> maxSize c1 = maxSize c"
proof (cases "length (cache c) < maxSize c")
  case True
  then show ?thesis using ok by (simp add: evict_if_full_room cache_ok_def)
next
  case False
  then have full: "maxSize c \<le> length (cache c)" by simp
  then have ne: "cache c \<noteq> []" using ok by (auto simp: cache_ok_def)
  have d: "distinct (map fst (cache c))" using ok by (simp add: cache_ok_def)
  have "Suc (length (AList.delete (oldest_key (cache c)) (cache c))) = length (cache c)"
    by (rule length_delete_mem [OF d oldest_key_mem [OF ne]])
  moreover have "length (cache c) \<le> maxSize c" using ok by (simp add: cache_ok_def)
  ultimately have "length (AList.delete (oldest_key (cache c)) (cache c)) < maxSize c" by simp
  then show ?thesis using d by (simp add: evict_if_full_full [OF full ne] distinct_delete)
qed

lemma store_entry_ok:
  assumes "distinct (map fst (cache c))" and "length (cache c) < maxSize c"
  shows "cache_ok (store_entry k b now c)"
proof -
  have "length (AList.update k \<lparr>data = b, timestamp = now\<rparr> (cache c)) \<le> Suc (length (cache c))"
    by (rule length_update_le)
  then show ?thesis using assms by (simp add: cache_ok_def store_entry_def distinct_update)
qed

lemma Put_ok:
  assumes ok: "cache_ok c"
  shows "\<exists>c' files'. Put sha fmt now io t s v b (c, files) = Inr (c', files') \<and> cache_ok c' \<and>
           maxSize c' = maxSize c"
proof -
  from evict_if_full_ok [OF ok] obtain c1 where
    e: "evict_if_full c = Inr c1" and d: "distinct (map fst (cache c1))"
    and l: "length (cache c1) < maxSize c1" and m: "maxSize c1 = maxSize c" by blast
  have "cache_ok (store_entry (GenerateCacheKey sha t s v) b now c1)"
    by (rule store_entry_ok [OF d l])
  moreover have "maxSize (store_entry (GenerateCacheKey sha t s v) b now c1) = maxSize c"
    using m by (simp add: store_entry_def)
  ultimately show ?thesis by (simp add: Put_def Let_def e)
qed

lemma Get_ok:
  assumes ok: "cache_ok c"
  shows "\<exists>r c'. Get sha fmt now t s v (c, files) = Inr (r, c') \<and> cache_ok c' \<and>
           maxSize c' = maxSize c"
proof (cases "map_of (cache c) (GenerateCacheKey sha t s v)")
  case (Some e)
  then have "GenerateCacheKey sha t s v \<in> fst ` set (cache c)"
    by (metis domI dom_map_of_conv_image_fst)
  then have "length (AList.update (GenerateCacheKey sha t s v) (e\<lparr>timestamp := now\<rparr>) (cache c))
               = length (cache c)"
    by (rule length_update_mem)
  then show ?thesis using ok Some by (simp add: Get_def Let_def cache_ok_def distinct_update)
next
  case None
  show ?thesis
  proof (cases "LoadFromDisk c files fmt (GenerateCacheKey sha t s v)")
    case n: None
    then show ?thesis using None ok by (simp add: Get_def Let_def)
  next
    case (Some outData)
    from evict_if_full_ok [OF ok] obtain c1 where
      e: "evict_if_full c = Inr c1" and d: "distinct (map fst (cache c1))"
      and l: "length (cache c1) < maxSize c1" and m: "maxSize c1 = maxSize c" by blast
    have "cache_ok (store_entry (GenerateCacheKey sha t s v) outData now c1)"
      by (rule store_entry_ok [OF d l])
    moreover have "maxSize (store_entry (GenerateCacheKey sha t s v) outData now c1) = maxSize c"
      using m by (simp add: store_entry_def)
    ultimately show ?thesis using None Some by (simp add: Get_def Let_def e)
  qed
qed

lemma cache_step_ok:
  assumes "cache_ok c"
  shows "\<exists>c' files'. cache_step sha fmt (Inr (c, files)) ev = Inr (c', files') \<and> cache_ok c' \<and>
           maxSize c' = maxSize c"
proof (cases ev)
  case (PutCall t s v b now io)
  then show ?thesis using Put_ok [OF assms, of sha fmt now io t s v b files] by simp
next
  case (GetCall t s v now)
  from Get_ok [OF assms, of sha fmt now t s v files] obtain r c' where
    "Get sha fmt now t s v (c, files) = Inr (r, c')" "cache_ok c'" "maxSize c' = maxSize c"
    by blast
  then show ?thesis using GetCall by simp
qed

lemma cache_run_ok:
  assumes "cache_ok c"
  shows "\<exists>c' files'. cache_run sha fmt (c, files) evs = Inr (c', files') \<and> cache_ok c' \<and>
           maxSize c' = maxSize c"
proof (induction evs rule: rev_induct)
  case Nil
  then show ?case using assms by (simp add: cache_run_def)
next
  case (snoc ev evs)
  then obtain c1 f1 where r: "cache_run sha fmt (c, files) evs = Inr (c1, f1)"
    and ok1: "cache_ok c1" and m1: "maxSize c1 = maxSize c" by blast
  from cache_step_ok [OF ok1, of sha fmt f1 ev] m1 r show ?case
    by (auto simp: cache_run_def)
qed

lemma Put_full:
  assumes "maxSize c \<le> length (cache c)" and "cache c \<noteq> []"
  shows "\<exists>c' files'. Put sha fmt now io t s v b (c, files) = Inr (c', files') \<and>
           map_of (cache c') =
             ((map_of (cache c))(oldest_key (cache c) := None))
               (GenerateCacheKey sha t s v \<mapsto> \<lparr>data = b, timestamp = now\<rparr>)"
  by (simp add: Put_def Let_def evict_if_full_full [OF assms] store_entry_def
      update_conv' delete_conv')

lemma Put_room:
  assumes "length (cache c) < maxSize c"
  shows "\<exists>c' files'. Put sha fmt now io t s v b (c, files) = Inr (c', files') \<and>
           map_of (cache c') =
             (map_of (cache c))(GenerateCacheKey sha t s v \<mapsto> \<lparr>data = b, timestamp = now\<rparr>)"
  by (simp add: Put_def Let_def evict_if_full_room [OF assms] store_entry_def update_conv')

lemma Get_promote_full:
  assumes "maxSize c \<le> length (cache c)" and "cache c \<noteq> []"
    and "map_of (cache c) (GenerateCacheKey sha t s v) = None"
    and "LoadFromDisk c files fmt (GenerateCacheKey sha t s v) = Some d"
  shows "\<exists>c'. Get sha fmt now t s v (c, files) = Inr (Some d, c') \<and>
           map_of (cache c') =
             ((map_of (cache c))(oldest_key (cache c) := None))
               (GenerateCacheKey sha t s v \<mapsto> \<lparr>data = d, timestamp = now\<rparr>)"
  using assms(3,4)
  by (simp add: Get_def Let_def evict_if_full_full [OF assms(1,2)] store_entry_def
      update_conv' delete_conv')

lemma Get_promote_room:
  assumes "length (cache c) < maxSize c"
    and "map_of (cache c) (GenerateCacheKey sha t s v) = None"
    and "LoadFromDisk c files fmt (GenerateCacheKey sha t s v) = Some d"
  shows "\<exists>c'. Get sha fmt now t s v (c, files) = Inr (Some d, c') \<and>
           map_of (cache c') =
             (map_of (cache c))(GenerateCacheKey sha t s v \<mapsto> \<lparr>data = d, timestamp = now\<rparr>)"
  using assms(2,3)
  by (simp add: Get_def Let_def evict_if_full_room [OF assms(1)] store_entry_def update_conv')

lemma oldest_is_minimal:
  assumes "cache c \<noteq> []" and "distinct (map fst (cache c))"
  shows "\<exists>e. map_of (cache c) (oldest_key (cache c)) = Some e \<and>
           (\<forall>k e'. map_of (cache c) k = Some e' \<longrightarrow> timestamp e \<le> timestamp e')"
proof (intro exI conjI allI impI)
  show "map_of (cache c) (oldest_key (cache c)) = Some (snd (oldest_from (hd (cache c)) (cache c)))"
    by (rule oldest_key_entry [OF assms])
next
  fix k e'
  assume "map_of (cache c) k = Some e'"
  then have "(k, e') \<in> set (cache c)" by (rule map_of_SomeD)
  then show "timestamp (snd (oldest_from (hd (cache c)) (cache c))) \<le> timestamp e'"
    by (rule oldest_key_min)
qed

lemma Put_stores:
  assumes "Put sha fmt now io t s v b st = Inr st'"
  shows "map_of (cache (fst st')) (GenerateCacheKey sha t s v) = Some \<lparr>data = b, timestamp = now\<rparr>"
  using assms
  by (auto simp: Put_def Let_def store_entry_def update_conv' split: sum.splits)

lemma Put_returns:
  assumes "0 < maxSize (fst st) \<or> cache (fst st) \<noteq> []"
  shows "\<exists>st'. Put sha fmt now io t s v b st = Inr st'"
proof (cases "length (cache (fst st)) < maxSize (fst st)")
  case True
  then show ?thesis by (simp add: Put_def Let_def evict_if_full_room)
next
  case False
  then have "maxSize (fst st) \<le> length (cache (fst st))" "cache (fst st) \<noteq> []"
    using assms by auto
  then show ?thesis by (simp add: Put_def Let_def evict_if_full_full)
qed

text \<open>
  Claim C2. Whenever \<^verbatim>\<open>Put\<close> has stored the bytes, \<^verbatim>\<open>Get\<close> with the same triple directly
  afterwards reports a hit and returns exactly these bytes, whatever the clock and
  the disk do, as long as the hash provider gives the triple the same key in both
  calls; and \<^verbatim>\<open>Put\<close> does store them in every state with a positive \<^verbatim>\<open>maxSize\<close> or a
  non-empty memory tier. In the remaining state the round trip is lost: after
  \<^verbatim>\<open>SetMaxSize(0)\<close> on the fresh global cache (the configuration value
  \<^verbatim>\<open>max_cache_size = 0\<close> is passed on unchecked) the first \<^verbatim>\<open>Put\<close>, for every triple and
  every byte vector, finds \<^verbatim>\<open>cache.size() >= maxSize\<close> on the empty map and runs
  \<^verbatim>\<open>cache.erase(cache.end())\<close>.
\<close>

theorem Put_Get_roundtrip:
  "(Put sha fmt now io txt server voice bytes st = Inr st' \<and>
    GenerateCacheKey sha' txt server voice = GenerateCacheKey sha txt server voice \<longrightarrow>
      (\<exists>c''. Get sha' fmt' now' txt server voice st' = Inr (Some bytes, c'')))
   \<and> (0 < maxSize (fst st) \<or> cache (fst st) \<noteq> [] \<longrightarrow>
      (\<exists>st'. Put sha fmt now io txt server voice bytes st = Inr st'))
   \<and> Put sha fmt now io txt server voice bytes (SetMaxSize 0 g_audioCache, files) = Inl EraseEnd"
proof (intro conjI impI)
  show "Put sha fmt now io txt server voice bytes (SetMaxSize 0 g_audioCache, files) = Inl EraseEnd"
    by (simp add: Put_def Let_def evict_if_full_empty SetMaxSize_def g_audioCache_def
        AudioCache_new_def)
next
  assume a: "Put sha fmt now io txt server voice bytes st = Inr st' \<and>
    GenerateCacheKey sha' txt server voice = GenerateCacheKey sha txt server voice"
  then have "map_of (cache (fst st')) (GenerateCacheKey sha' txt server voice)
               = Some \<lparr>data = bytes, timestamp = now\<rparr>"
    using Put_stores [of sha fmt now io "txt" server voice bytes st st'] by simp
  then show "\<exists>c''. Get sha' fmt' now' txt server voice st' = Inr (Some bytes, c'')"
    by (simp add: Get_def Let_def)
next
  assume "0 < maxSize (fst st) \<or> cache (fst st) \<noteq> []"
  then show "\<exists>st'. Put sha fmt now io txt server voice bytes st = Inr st'"
    by (rule Put_returns)
qed

lemmas cache_eval = cache_run_def Put_def Get_def Let_def GenerateCacheKey_def plain_sha_def
  combined_def hex_byte_def hex_digit_def AudioCache_new_def evict_if_full_def store_entry_def
  SaveToDisk_def LoadFromDisk_def oldest_key_def

text \<open>
  Claim C4 as stated fails. With capacity 2 and the keys of \<open>a\<close> and \<open>b\<close> stored, storing
  \<open>b\<close> again would not exceed the capacity, yet the entry of \<open>a\<close> is evicted and the
  tier is left with one entry.
\<close>

theorem eviction_on_update_counterexample:
  "cache_run plain_sha ''wav'' (AudioCache_new 2, Map.empty) (take 2 three_puts)
     = Inr (two_entries, Map.empty)
   \<and> Put plain_sha ''wav'' 3 WriteAll ''b'' ''s'' ''v'' [3] (two_entries, Map.empty)
     = Inr (two_entries\<lparr>cache := [(''627c737c76'', \<lparr>data = [3], timestamp = 3\<rparr>)]\<rparr>, Map.empty)"
  by (simp add: three_puts_def two_entries_def cache_eval)

text \<open>
  Claim C4, amended. Starting from an empty memory tier with \<^verbatim>\<open>maxSize\<close> at least 1, no
  history of \<^verbatim>\<open>Put\<close> and \<^verbatim>\<open>Get\<close> calls faults or leaves more than \<^verbatim>\<open>maxSize\<close> entries in
  the tier.
  Whenever \<^verbatim>\<open>Put\<close>, or the promotion of a disk hit inside \<^verbatim>\<open>Get\<close>, finds the tier
  holding at least \<^verbatim>\<open>maxSize\<close> entries (whether or not the key to be stored is already
  present), exactly one entry is erased before the store: the one \<^verbatim>\<open>oldest\<close> points to,
  whose timestamp is minimal among all entries; afterwards the tier maps that key to
  nothing unless it is the key just stored, and every other key as before. When the
  tier holds fewer than \<^verbatim>\<open>maxSize\<close> entries nothing is erased.
\<close>

theorem memory_tier_eviction:
  "(cache c0 = [] \<and> 0 < maxSize c0 \<longrightarrow>
      (\<exists>c' files'. cache_run sha fmt (c0, files) evs = Inr (c', files') \<and>
         length (cache c') \<le> maxSize c0))
   \<and> (maxSize c \<le> length (cache c) \<and> cache c \<noteq> [] \<and> distinct (map fst (cache c)) \<longrightarrow>
        (\<exists>c' files'. Put sha fmt now io txt server voice bytes (c, files) = Inr (c', files') \<and>
           map_of (cache c') =
             ((map_of (cache c))(oldest_key (cache c) := None))
               (GenerateCacheKey sha txt server voice \<mapsto> \<lparr>data = bytes, timestamp = now\<rparr>))
      \<and> (map_of (cache c) (GenerateCacheKey sha txt server voice) = None \<and>
         LoadFromDisk c files fmt (GenerateCacheKey sha txt server voice) = Some d \<longrightarrow>
           (\<exists>c'. Get sha fmt now txt server voice (c, files) = Inr (Some d, c') \<and>
              map_of (cache c') =
                ((map_of (cache c))(oldest_key (cache c) := None))
                  (GenerateCacheKey sha txt server voice \<mapsto> \<lparr>data = d, timestamp = now\<rparr>)))
      \<and> (\<exists>e. map_of (cache c) (oldest_key (cache c)) = Some e \<and>
             (\<forall>k e'. map_of (cache c) k = Some e' \<longrightarrow> timestamp e \<le> timestamp e')))
   \<and> (length (cache c) < maxSize c \<longrightarrow>
        (\<exists>c' files'. Put sha fmt now io txt server voice bytes (c, files) = Inr (c', files') \<and>
           map_of (cache c') =
             (map_of (cache c))
               (GenerateCacheKey sha txt server voice \<mapsto> \<lparr>data = bytes, timestamp = now\<rparr>))
      \<and> (map_of (cache c) (GenerateCacheKey sha txt server voice) = None \<and>
         LoadFromDisk c files fmt (GenerateCacheKey sha txt server voice) = Some d \<longrightarrow>
           (\<exists>c'. Get sha fmt now txt server voice (c, files) = Inr (Some d, c') \<and>
              map_of (cache c') =
                (map_of (cache c))
                  (GenerateCacheKey sha txt server voice \<mapsto> \<lparr>data = d, timestamp = now\<rparr>))))"
proof (intro conjI impI)
  assume "cache c0 = [] \<and> 0 < maxSize c0"
  then have "cache_ok c0" by (simp add: cache_ok_def)
  from cache_run_ok [OF this, of sha fmt files evs]
  show "\<exists>c' files'. cache_run sha fmt (c0, files) evs = Inr (c', files') \<and>
         length (cache c') \<le> maxSize c0"
    by (auto simp: cache_ok_def)
next
  assume "maxSize c \<le> length (cache c) \<and> cache c \<noteq> [] \<and> distinct (map fst (cache c))"
  then show "\<exists>c' files'. Put sha fmt now io txt server voice bytes (c, files) = Inr (c', files') \<and>
           map_of (cache c') =
             ((map_of (cache c))(oldest_key (cache c) := None))
               (GenerateCacheKey sha txt server voice \<mapsto> \<lparr>data = bytes, timestamp = now\<rparr>)"
    by (intro Put_full) simp_all
next
  assume "maxSize c \<le> length (cache c) \<and> cache c \<noteq> [] \<and> distinct (map fst (cache c))"
    and "map_of (cache c) (GenerateCacheKey sha txt server voice) = None \<and>
         LoadFromDisk c files fmt (GenerateCacheKey sha txt server voice) = Some d"
  then show "\<exists>c'. Get sha fmt now txt server voice (c, files) = Inr (Some d, c') \<and>
              map_of (cache c') =
                ((map_of (cache c))(oldest_key (cache c) := None))
                  (GenerateCacheKey sha txt server voice \<mapsto> \<lparr>data = d, timestamp = now\<rparr>)"
    by (intro Get_promote_full) simp_all
next
  assume "maxSize c \<le> length (cache c) \<and> cache c \<noteq> [] \<and> distinct (map fst (cache c))"
  then show "\<exists>e. map_of (cache c) (oldest_key (cache c)) = Some e \<and>
             (\<forall>k e'. map_of (cache c) k = Some e' \<longrightarrow> timestamp e \<le> timestamp e')"
    by (intro oldest_is_minimal) simp_all
next
  assume "length (cache c) < maxSize c"
  then show "\<exists>c' files'. Put sha fmt now io txt server voice bytes (c, files) = Inr (c', files') \<and>
           map_of (cache c') =
             (map_of (cache c))
               (GenerateCacheKey sha txt server voice \<mapsto> \<lparr>data = bytes, timestamp = now\<rparr>)"
    by (rule Put_room)
next
  assume "length (cache c) < maxSize c"
    and "map_of (cache c) (GenerateCacheKey sha txt server voice) = None \<and>
         LoadFromDisk c files fmt (GenerateCacheKey sha txt server voice) = Some d"
  then show "\<exists>c'. Get sha fmt now txt server voice (c, files) = Inr (Some d, c') \<and>
              map_of (cache c') =
                (map_of (cache c))
                  (GenerateCacheKey sha txt server voice \<mapsto> \<lparr>data = d, timestamp = now\<rparr>)"
    by (intro Get_promote_room) simp_all
qed

text \<open>
  Capacity 2: two stores, a hit that refreshes the first entry, and a third store
  that evicts the second; then one store into the full tier and one with room.
\<close>

theorem memory_tier_eviction_witness:
  "cache_run plain_sha ''wav'' (SetMaxSize 2 g_audioCache, Map.empty)
     [PutCall ''a'' ''s'' ''v'' [1] 1 WriteAll, PutCall ''b'' ''s'' ''v'' [2] 2 WriteAll,
      GetCall ''a'' ''s'' ''v'' 3, PutCall ''c'' ''s'' ''v'' [4] 4 WriteAll]
     = Inr (two_entries\<lparr>cache := [(''617c737c76'', \<lparr>data = [1], timestamp = 3\<rparr>),
                                    (''637c737c76'', \<lparr>data = [4], timestamp = 4\<rparr>)]\<rparr>, Map.empty)
   \<and> oldest_key (cache two_entries) = ''617c737c76''
   \<and> map_of (cache (fst (projr (Put plain_sha ''wav'' 5 WriteAll ''c'' ''s'' ''v'' [4] (two_entries, Map.empty)))))
        ''617c737c76'' = None
   \<and> map_of (cache (fst (projr (Put plain_sha ''wav'' 5 WriteAll ''c'' ''s'' ''v'' [4]
          (two_entries\<lparr>maxSize := 3\<rparr>, Map.empty))))) ''617c737c76'' = Some \<lparr>data = [1], timestamp = 1\<rparr>"
  using memory_tier_eviction [of "SetMaxSize 2 g_audioCache" plain_sha "''wav''" Map.empty
      "[PutCall ''a'' ''s'' ''v'' [1] 1 WriteAll, PutCall ''b'' ''s'' ''v'' [2] 2 WriteAll,
        GetCall ''a'' ''s'' ''v'' 3, PutCall ''c'' ''s'' ''v'' [4] 4 WriteAll]"
      two_entries 5 WriteAll "''c''" "''s''" "''v''" "[4]" "[]"]
    memory_tier_eviction [of "SetMaxSize 2 g_audioCache" plain_sha "''wav''" Map.empty "[]"
      "two_entries\<lparr>maxSize := 3\<rparr>" 5 WriteAll "''c''" "''s''" "''v''" "[4]" "[]"]
  by (simp add: two_entries_def cache_eval g_audioCache_def SetMaxSize_def)

text \<open>
  A round trip through a fresh cache of capacity 2, and the same store into the fresh
  global cache after \<^verbatim>\<open>SetMaxSize(0)\<close>.
\<close>

theorem Put_Get_roundtrip_witness:
  "Put plain_sha ''wav'' 1 WriteAll ''hi'' ''s'' ''v'' [1, 2, 3] (AudioCache_new 2, Map.empty) = Inr stored_hi
   \<and> (\<exists>c''. Get plain_sha ''wav'' 2 ''hi'' ''s'' ''v'' stored_hi = Inr (Some [1, 2, 3], c''))
   \<and> Put plain_sha ''wav'' 1 WriteAll ''hi'' ''s'' ''v'' [1, 2, 3] (SetMaxSize 0 g_audioCache, Map.empty)
       = Inl EraseEnd"
  using Put_Get_roundtrip [of plain_sha "''wav''" 1 WriteAll "''hi''" "''s''" "''v''" "[1, 2, 3]"
      "(AudioCache_new 2, Map.empty)" stored_hi plain_sha "''wav''" 2 Map.empty]
  by (simp add: stored_hi_def cache_eval)

section \<open>Properties of the fetch procedure, sanitization and the fetch task\<close>


lemma fetch_loop_stop:
  "\<not> int a < m \<Longrightarrow> fetch_loop net m a slept = \<lparr>audio = [], attempts_made = a, sleeps = slept\<rparr>"
  by (simp add: fetch_loop.simps)

lemma fetch_loop_continue:
  "int a < m \<Longrightarrow> continues (net a) \<Longrightarrow>
     fetch_loop net m a slept =
       fetch_loop net m (a + 1) (if a > 0 then slept @ [delayMs a] else slept)"
  by (subst fetch_loop.simps) (auto simp: continues_def Let_def split: attempt_outcome.splits)

lemma fetch_loop_client_error:
  "int a < m \<Longrightarrow> client_error (net a) \<Longrightarrow>
     fetch_loop net m a slept =
       \<lparr>audio = [], attempts_made = a + 1, sleeps = (if a > 0 then slept @ [delayMs a] else slept)\<rparr>"
  by (subst fetch_loop.simps) (auto simp: Let_def split: attempt_outcome.splits)

lemma fetch_loop_success:
  "int a < m \<Longrightarrow> net a = Response 200 body \<Longrightarrow>
     fetch_loop net m a slept =
       \<lparr>audio = body, attempts_made = a + 1, sleeps = (if a > 0 then slept @ [delayMs a] else slept)\<rparr>"
  by (subst fetch_loop.simps) (auto simp: Let_def)

lemma outcome_cases:
  obtains (cont) "continues out" | (client) "client_error out" | (ok) body where "out = Response 200 body"
  by (cases out) (auto simp: continues_def)

lemma upt_from_one: "[max a 1..<Suc a] = (if a > 0 then [a] else [])"
  by (cases a) simp_all

lemma fetch_loop_shape:
  "a \<le> attempts_made (fetch_loop net m a slept) \<and>
   attempts_made (fetch_loop net m a slept) \<le> max a (nat m) \<and>
   sleeps (fetch_loop net m a slept) =
     slept @ map delayMs [max a 1..<attempts_made (fetch_loop net m a slept)]"
proof (induction "nat (m - int a)" arbitrary: a slept)
  case 0
  then have "\<not> int a < m" by simp
  then show ?case by (simp add: fetch_loop_stop)
next
  case (Suc n)
  then have lt: "int a < m" by linarith
  let ?slept = "if a > 0 then slept @ [delayMs a] else slept"
  show ?case
  proof (cases "net a" rule: outcome_cases)
    case cont
    have n: "n = nat (m - int (a + 1))" using Suc.hyps(2) by linarith
    note ih = Suc.hyps(1) [OF n, of ?slept]
    let ?r = "fetch_loop net m (a + 1) ?slept"
    have ge: "a + 1 \<le> attempts_made ?r" using ih by simp
    then have "[max a 1..<attempts_made ?r] = [max a 1..<Suc a] @ [Suc a..<attempts_made ?r]"
      by (cases a) (simp_all add: upt_conv_Cons)
    then show ?thesis
      using ih lt cont by (simp add: fetch_loop_continue upt_from_one)
  next
    case client
    have "Suc a \<le> nat m" using lt by linarith
    then show ?thesis using client lt by (simp add: fetch_loop_client_error upt_from_one)
  next
    case (ok body)
    have "Suc a \<le> nat m" using lt by linarith
    then show ?thesis using ok lt by (simp add: fetch_loop_success upt_from_one)
  qed
qed


lemma fetch_loop_until_success:
  assumes "int k < m" and "net k = Response 200 body"
    and "a \<le> k" and "\<forall>j. a \<le> j \<and> j < k \<longrightarrow> continues (net j)"
  shows "audio (fetch_loop net m a slept) = body \<and> attempts_made (fetch_loop net m a slept) = k + 1"
  using assms(3,4)
proof (induction "k - a" arbitrary: a slept)
  case 0
  then have "a = k" by simp
  then show ?case using assms(1,2) by (simp add: fetch_loop_success)
next
  case (Suc n)
  then have lt: "a < k" by simp
  then have "int a < m" "continues (net a)" using assms(1) Suc.prems by auto
  then have "fetch_loop net m a slept =
       fetch_loop net m (a + 1) (if a > 0 then slept @ [delayMs a] else slept)"
    by (rule fetch_loop_continue)
  moreover have "n = k - (a + 1)" "a + 1 \<le> k" "\<forall>j. a + 1 \<le> j \<and> j < k \<longrightarrow> continues (net j)"
    using Suc.hyps(2) lt Suc.prems by auto
  ultimately show ?case using Suc.hyps(1) by simp
qed


lemma fetch_loop_no_success:
  assumes "\<forall>j. a \<le> j \<and> int j < m \<longrightarrow> \<not> succeeded (net j)"
  shows "audio (fetch_loop net m a slept) = []"
  using assms
proof (induction "nat (m - int a)" arbitrary: a slept)
  case 0
  then have "\<not> int a < m" by simp
  then show ?case by (simp add: fetch_loop_stop)
next
  case (Suc n)
  then have lt: "int a < m" by linarith
  then have ns: "\<not> succeeded (net a)" using Suc.prems by simp
  show ?case
  proof (cases "net a" rule: outcome_cases)
    case cont
    with lt have "fetch_loop net m a slept =
       fetch_loop net m (a + 1) (if a > 0 then slept @ [delayMs a] else slept)"
      by (rule fetch_loop_continue)
    moreover have "n = nat (m - int (a + 1))" "\<forall>j. a + 1 \<le> j \<and> int j < m \<longrightarrow> \<not> succeeded (net j)"
      using Suc.hyps(2) Suc.prems by auto
    ultimately show ?thesis using Suc.hyps(1) by simp
  next
    case client
    then show ?thesis using lt by (simp add: fetch_loop_client_error)
  next
    case (ok body)
    then show ?thesis using ns by simp
  qed
qed

lemma delayMs_value:
  assumes "k \<le> 22"
  shows "unat (delayMs k) = 500 * 2 ^ k"
proof -
  have "(2::nat) ^ k \<le> 2 ^ 22" using assms by (intro power_increasing) simp_all
  then have b: "500 * (2::nat) ^ k < 2 ^ 32" by simp
  have "delayMs k = of_nat (500 * 2 ^ k)"
    by (simp add: delayMs_def push_bit_eq_mult)
  moreover have "unat (of_nat (500 * 2 ^ k) :: 32 word) = 500 * 2 ^ k"
    by (rule of_nat_inverse [OF refl]) (use b in simp)
  ultimately show ?thesis by simp
qed

text \<open>
  Claim C5. The procedure begins at most \<^verbatim>\<open>maxRetries\<close> passes (3 for \<^verbatim>\<open>FetchTTSAudio\<close>);
  it sleeps exactly once before every pass \<open>k \<ge> 1\<close> it begins, for \<open>500 * 2^k\<close>
  milliseconds; and when no pass succeeds it returns the empty vector. With three
  failing passes the delays are therefore 1000 ms and 2000 ms: the sequence 500,
  1000, 2000 of the claim and of the comment next to the computation is not what the
  computation yields.
\<close>

theorem retry_backoff:
  "attempts_made (FetchTTSAudioWithRetry net txt maxRetries) \<le> nat maxRetries
   \<and> sleeps (FetchTTSAudioWithRetry net txt maxRetries) =
       map delayMs [1..<attempts_made (FetchTTSAudioWithRetry net txt maxRetries)]
   \<and> (k \<le> 22 \<longrightarrow> unat (delayMs k) = 500 * 2 ^ k)
   \<and> ((\<forall>j. int j < maxRetries \<longrightarrow> \<not> succeeded (net txt j)) \<longrightarrow>
        audio (FetchTTSAudioWithRetry net txt maxRetries) = [])
   \<and> FetchTTSAudio (\<lambda>t j. SendRequestFails) txt =
       \<lparr>audio = [], attempts_made = 3, sleeps = [1000, 2000]\<rparr>"
proof (intro conjI impI)
  note shape = fetch_loop_shape [of 0 "net txt" maxRetries "[]"]
  show "attempts_made (FetchTTSAudioWithRetry net txt maxRetries) \<le> nat maxRetries"
    using shape by (simp add: FetchTTSAudioWithRetry_def)
  show "sleeps (FetchTTSAudioWithRetry net txt maxRetries) =
       map delayMs [1..<attempts_made (FetchTTSAudioWithRetry net txt maxRetries)]"
    using shape by (simp add: FetchTTSAudioWithRetry_def)
  show "unat (delayMs k) = 500 * 2 ^ k" if "k \<le> 22"
    using that by (rule delayMs_value)
  show "audio (FetchTTSAudioWithRetry net txt maxRetries) = []"
    if "\<forall>j. int j < maxRetries \<longrightarrow> \<not> succeeded (net txt j)"
    using that by (simp add: FetchTTSAudioWithRetry_def fetch_loop_no_success)
  show "FetchTTSAudio (\<lambda>t j. SendRequestFails) txt =
       \<lparr>audio = [], attempts_made = 3, sleeps = [1000, 2000]\<rparr>"
    by (simp add: FetchTTSAudio_def FetchTTSAudioWithRetry_def fetch_loop.simps delayMs_def)
qed

text \<open>Two transport failures and a success on the third pass; three server errors.\<close>

theorem retry_backoff_witness:
  "FetchTTSAudioWithRetry (\<lambda>t j. if j < 2 then ConnectFails else Response 200 [82, 73]) ''hello'' 3
     = \<lparr>audio = [82, 73], attempts_made = 3, sleeps = [1000, 2000]\<rparr>
   \<and> audio (FetchTTSAudioWithRetry (\<lambda>t j. Response 503 []) ''hello'' 3) = []
   \<and> unat (delayMs 1) = 1000 \<and> unat (delayMs 2) = 2000"
  using retry_backoff [of "\<lambda>t j. if j < 2 then ConnectFails else Response 200 [82, 73]" "''hello''" 3 1]
    retry_backoff [of "\<lambda>t j. Response 503 []" "''hello''" 3 2]
  by (simp add: FetchTTSAudioWithRetry_def fetch_loop.simps delayMs_def)



lemma SanitizeText_text:
  "fst (snd (SanitizeText txt)) = take MAX_LENGTH (filter (\<lambda>c. c \<noteq> CHR 0x00) txt)"
  by (simp add: SanitizeText_def Let_def)

lemma SanitizeText_flag: "fst (SanitizeText txt) = (fst (snd (SanitizeText txt)) \<noteq> [])"
  by (simp add: SanitizeText_def Let_def)

lemma SanitizeText_warning:
  "(InvalidUTF8 \<in> set (snd (snd (SanitizeText txt)))) =
     (\<not> IsValidUTF8 (filter (\<lambda>c. c \<noteq> CHR 0x00) txt))"
  by (simp add: SanitizeText_def Let_def)

lemma task_sanitize_fails:
  assumes "Get (env_sha env) (cfg_format env) (now_get env) txt (cfg_server env) (cfg_voice env)
             (the_cache st, the_files st) = Inr (None, c1)"
    and "\<not> fst (SanitizeText txt)"
  shows "FetchAndEnqueueForPlayback env txt seq st =
           Inr (st\<lparr>the_cache := c1, the_queue := MarkFailed seq (the_queue st)\<rparr>, 0)"
  using assms
  by (cases "SanitizeText txt") (simp add: FetchAndEnqueueForPlayback_def)

text \<open>
  Claim C9. \<^verbatim>\<open>SanitizeText\<close> leaves the first 5000 bytes of the text without its null
  bytes: no null byte remains, the length is at most 5000, and invalid UTF-8 only
  adds a warning without changing the text or the flag. The flag is false exactly
  when the text it leaves is empty. When the fetch task finds nothing in the cache
  and sanitization fails, it marks the request failed and makes no connection
  attempt; the cache keeps what the lookup left.
\<close>

theorem sanitize_then_fetch:
  "CHR 0x00 \<notin> set (fst (snd (SanitizeText txt)))
   \<and> fst (snd (SanitizeText txt)) = take 5000 (filter (\<lambda>c. c \<noteq> CHR 0x00) txt)
   \<and> length (fst (snd (SanitizeText txt))) \<le> 5000
   \<and> fst (SanitizeText txt) = (fst (snd (SanitizeText txt)) \<noteq> [])
   \<and> (InvalidUTF8 \<in> set (snd (snd (SanitizeText txt)))) =
       (\<not> IsValidUTF8 (filter (\<lambda>c. c \<noteq> CHR 0x00) txt))
   \<and> (Get (env_sha env) (cfg_format env) (now_get env) txt (cfg_server env) (cfg_voice env)
          (the_cache st, the_files st) = Inr (None, c1) \<and> \<not> fst (SanitizeText txt) \<longrightarrow>
        FetchAndEnqueueForPlayback env txt seq st =
          Inr (st\<lparr>the_cache := c1, the_queue := MarkFailed seq (the_queue st)\<rparr>, 0))"
proof (intro conjI impI)
  have t: "fst (snd (SanitizeText txt)) = take 5000 (filter (\<lambda>c. c \<noteq> CHR 0x00) txt)"
    by (simp add: SanitizeText_text MAX_LENGTH_def)
  show "CHR 0x00 \<notin> set (fst (snd (SanitizeText txt)))"
  proof
    assume "CHR 0x00 \<in> set (fst (snd (SanitizeText txt)))"
    then have "CHR 0x00 \<in> set (filter (\<lambda>c. c \<noteq> CHR 0x00) txt)"
      unfolding t by (rule in_set_takeD)
    then show False by simp
  qed
  show "fst (snd (SanitizeText txt)) = take 5000 (filter (\<lambda>c. c \<noteq> CHR 0x00) txt)" by (rule t)
  show "length (fst (snd (SanitizeText txt))) \<le> 5000" by (simp add: t)
  show "fst (SanitizeText txt) = (fst (snd (SanitizeText txt)) \<noteq> [])" by (rule SanitizeText_flag)
  show "(InvalidUTF8 \<in> set (snd (snd (SanitizeText txt)))) =
       (\<not> IsValidUTF8 (filter (\<lambda>c. c \<noteq> CHR 0x00) txt))" by (rule SanitizeText_warning)
  show "FetchAndEnqueueForPlayback env txt seq st =
          Inr (st\<lparr>the_cache := c1, the_queue := MarkFailed seq (the_queue st)\<rparr>, 0)"
    if "Get (env_sha env) (cfg_format env) (now_get env) txt (cfg_server env) (cfg_voice env)
          (the_cache st, the_files st) = Inr (None, c1) \<and> \<not> fst (SanitizeText txt)"
    using that by (intro task_sanitize_fails) simp_all
qed

text \<open>
  A text of two null bytes fails and its request is marked failed with no attempt;
  a text with an invalid byte passes with a warning.
\<close>

theorem sanitize_then_fetch_witness:
  "SanitizeText [CHR 0x00, CHR 0x00] = (False, [], [])
   \<and> SanitizeText [CHR 0xFF, CHR 0x00, CHR ''a''] = (True, [CHR 0xFF, CHR ''a''], [InvalidUTF8])
   \<and> FetchAndEnqueueForPlayback quiet_env [CHR 0x00, CHR 0x00] 1 one_request =
       Inr (one_request\<lparr>the_queue := MarkFailed 1 (the_queue one_request)\<rparr>, 0)
   \<and> map_option failed (pendingItems (MarkFailed 1 (the_queue one_request)) 1) = Some True"
  using sanitize_then_fetch [of "[CHR 0x00, CHR 0x00]" quiet_env one_request "AudioCache_new 50" 1]
    sanitize_then_fetch [of "[CHR 0xFF, CHR 0x00, CHR ''a'']" quiet_env one_request "AudioCache_new 50" 1]
  by (simp add: SanitizeText_def MAX_LENGTH_def continuation_def quiet_env_def one_request_def
      Get_def GenerateCacheKey_def plain_sha_def combined_def AudioCache_new_def LoadFromDisk_def
      FetchAndEnqueueForPlayback_def MarkFailed_def AddRequest_def PlaybackQueue_new_def
      AudioItem_new_def Let_def)

end
